theory Spec2Isabelle
  imports Main
begin

section \<open>Python values and exceptions\<close>

text \<open>
  The exceptions the modelled code can raise.  A function that can raise returns
  \<open>error + 'a\<close>, with \<open>Inl\<close> for the exception.
\<close>

datatype error =
    RuntimeError | ValueError | KeyError | TypeError | AttributeError | IndexError
  | JSONDecodeError | OverflowError | ProgrammingError | IntegrityError

text \<open>
  A Python float is kept by what it was read from: an integer, or the text of a decimal
  literal.  No claim depends on the arithmetic of doubles.
\<close>

datatype pyfloat = Float_of_int int | Float_of_str string

text \<open>
  What \<open>resp.json()\<close> returns.  An object is an association list; the first binding
  of a key is the one \<open>dict.get\<close> sees.
\<close>

datatype json =
    JNull | JBool bool | JInt int | JFloat pyfloat | JStr string
  | JArr "json list" | JObj "(string \<times> json) list"

type_synonym params = "(string \<times> json) list"

subsection \<open>String methods\<close>

text \<open>
  A string is a list of 8-bit characters, read as the code points 0 to 255.  The white
  space of \<open>str.strip\<close> in that range:
\<close>

definition is_space :: "char \<Rightarrow> bool" where
  "is_space c = (c \<in> set [CHR 0x09, CHR 0x0A, CHR 0x0B, CHR 0x0C, CHR 0x0D,
                            CHR 0x1C, CHR 0x1D, CHR 0x1E, CHR 0x1F, CHR 0x20,
                            CHR 0x85, CHR 0xA0])"

text \<open>The white space \<open>int\<close> and \<open>float\<close> allow around a number: the separators
  0x1C to 0x1F are not part of it.\<close>

definition is_number_space :: "char \<Rightarrow> bool" where
  "is_number_space c = (c \<in> set [CHR 0x09, CHR 0x0A, CHR 0x0B, CHR 0x0C, CHR 0x0D, CHR 0x20,
                                   CHR 0x85, CHR 0xA0])"

definition strip_chars :: "(char \<Rightarrow> bool) \<Rightarrow> string \<Rightarrow> string" where
  "strip_chars P s = rev (dropWhile P (rev (dropWhile P s)))"

definition strip :: "string \<Rightarrow> string" where
  "strip s = strip_chars is_space s"

definition strip_number :: "string \<Rightarrow> string" where
  "strip_number s = strip_chars is_number_space s"

text \<open>\<open>s.split(c)\<close> for a one-character separator: always at least one part.\<close>

fun split :: "char \<Rightarrow> string \<Rightarrow> string list" where
  "split c [] = [[]]"
| "split c (x # xs) =
     (if x = c then [] # split c xs
      else (case split c xs of p # ps \<Rightarrow> (x # p) # ps | [] \<Rightarrow> [[x]]))"

text \<open>\<open>s.find(c)\<close>: the first index of the character, or -1.\<close>

fun find :: "char \<Rightarrow> string \<Rightarrow> int" where
  "find c [] = -1"
| "find c (x # xs) = (if x = c then 0 else (let i = find c xs in if i < 0 then -1 else i + 1))"

text \<open>\<open>s[a:b]\<close>: a negative index counts from the end, both are clamped to the string.\<close>

definition py_slice :: "string \<Rightarrow> int \<Rightarrow> int \<Rightarrow> string" where
  "py_slice s a b =
     (let n = int (length s);
          a' = (if a < 0 then max 0 (a + n) else min a n);
          b' = (if b < 0 then max 0 (b + n) else min b n)
      in take (nat (b' - a')) (drop (nat a') s))"

definition is_digit :: "char \<Rightarrow> bool" where
  "is_digit c = (c \<in> set ''0123456789'')"

definition digit_val :: "char \<Rightarrow> nat" where
  "digit_val c = of_char c - 48"

text \<open>
  A digit part of a Python numeric literal: digits, with single underscores allowed
  between digits.
\<close>

fun digitpart_from :: "bool \<Rightarrow> string \<Rightarrow> bool" where
  "digitpart_from after_digit [] = after_digit"
| "digitpart_from after_digit (c # cs) =
     (if is_digit c then digitpart_from True cs
      else if c = CHR ''_'' \<and> after_digit then (cs \<noteq> [] \<and> is_digit (hd cs) \<and> digitpart_from False cs)
      else False)"

definition digitpart :: "string \<Rightarrow> bool" where
  "digitpart s = (s \<noteq> [] \<and> digitpart_from False s)"

definition dec_value :: "string \<Rightarrow> nat" where
  "dec_value s = foldl (\<lambda>a c. 10 * a + digit_val c) 0 (filter is_digit s)"

text \<open>\<open>int(s)\<close> on a string: \<open>None\<close> stands for the \<open>ValueError\<close>.\<close>

definition py_int :: "string \<Rightarrow> int option" where
  "py_int s =
     (case strip_number s of
        [] \<Rightarrow> None
      | c # cs \<Rightarrow>
          if c = CHR ''-'' then (if digitpart cs then Some (- int (dec_value cs)) else None)
          else if c = CHR ''+'' then (if digitpart cs then Some (int (dec_value cs)) else None)
          else if digitpart (c # cs) then Some (int (dec_value (c # cs))) else None)"

section \<open>The fetch client (shopify_api.py)\<close>

text \<open>
  A response, with the two headers the code reads.  \<open>body\<close> is \<open>None\<close> when the
  body is not JSON, so that \<open>resp.json()\<close> raises.
\<close>

record response =
  status_code :: int
  retry_after :: "string option"
  link :: "string option"
  body :: "json option"

text \<open>What one call of \<open>REQUESTS_SESSION.get\<close> does: a response, or a
  \<open>RequestException\<close> of the transport (connection error, timeout).\<close>

datatype outcome = Transport_error | Response response

datatype event = Sent string params | Slept int

text \<open>
  The world outside the process: \<open>net\<close> is what the server answers to the successive
  requests, \<open>pos\<close> counts the requests made, \<open>trace\<close> records requests and sleeps in
  order, \<open>local_utcoffset\<close> is the system time zone (microseconds east of UTC, by local
  wall-clock time), \<open>shopify_store\<close> the \<open>SHOPIFY_STORE\<close> of the environment.
\<close>

record world =
  net :: "nat \<Rightarrow> outcome"
  pos :: nat
  trace :: "event list"
  local_utcoffset :: "int \<Rightarrow> int"
  shopify_store :: string

definition session_get :: "string \<Rightarrow> params \<Rightarrow> world \<Rightarrow> outcome \<times> world" where
  "session_get url ps w =
     (net w (pos w), w\<lparr>pos := Suc (pos w), trace := trace w @ [Sent url ps]\<rparr>)"

text \<open>\<open>time.sleep\<close> raises \<open>ValueError\<close> on a negative length.  Every other length is
  slept: the range of the platform's clock, some \<open>2 ^ 63\<close> nanoseconds, is not modelled.\<close>

definition time_sleep :: "int \<Rightarrow> world \<Rightarrow> error + world" where
  "time_sleep k w = (if k < 0 then Inl ValueError else Inr (w\<lparr>trace := trace w @ [Slept k]\<rparr>))"

text \<open>
  The loop of \<open>request_with_retries\<close>, by the attempts left and the current
  \<open>sleep_seconds\<close>.  \<open>raise_for_status\<close> raises for a status from 400 to 599; that
  \<open>HTTPError\<close> and the transport's exceptions are the \<open>RequestException\<close>s the handler
  catches.  The \<open>ValueError\<close> of \<open>int\<close> is not one of them.
\<close>

fun retry_loop :: "nat \<Rightarrow> int \<Rightarrow> string \<Rightarrow> params \<Rightarrow> world \<Rightarrow> (error + response) \<times> world" where
  "retry_loop 0 sleep_seconds url ps w = (Inl RuntimeError, w)"
| "retry_loop (Suc n) sleep_seconds url ps w =
     (case session_get url ps w of
        (Transport_error, w1) \<Rightarrow>
          (case time_sleep sleep_seconds w1 of
             Inl e \<Rightarrow> (Inl e, w1)
           | Inr w2 \<Rightarrow> retry_loop n (sleep_seconds * 2) url ps w2)
      | (Response resp, w1) \<Rightarrow>
          if status_code resp = 429 then
            (case (case retry_after resp of None \<Rightarrow> Some sleep_seconds | Some h \<Rightarrow> py_int h) of
               None \<Rightarrow> (Inl ValueError, w1)
             | Some k \<Rightarrow>
                 (case time_sleep k w1 of
                    Inl e \<Rightarrow> (Inl e, w1)
                  | Inr w2 \<Rightarrow> retry_loop n (sleep_seconds * 2) url ps w2))
          else if 400 \<le> status_code resp \<and> status_code resp < 600 then
            (case time_sleep sleep_seconds w1 of
               Inl e \<Rightarrow> (Inl e, w1)
             | Inr w2 \<Rightarrow> retry_loop n (sleep_seconds * 2) url ps w2)
          else (Inr resp, w1))"

definition request_with_retries ::
    "string \<Rightarrow> params \<Rightarrow> nat \<Rightarrow> world \<Rightarrow> (error + response) \<times> world" where
  "request_with_retries url ps max_retries w = retry_loop max_retries 1 url ps w"

text \<open>One comma-separated part of the header, as the body of the loop treats it.\<close>

definition link_part :: "string \<Rightarrow> error + (string \<times> string) option" where
  "link_part p =
     (let section = split CHR '';'' (strip p) in
      if length section < 2 then Inr None
      else
        let url_part = strip (section ! 0);
            rel_part = strip (section ! 1);
            url = py_slice url_part (find CHR ''<'' url_part + 1) (find CHR ''>'' url_part)
        in (case split CHR ''='' rel_part of
              _ # r # _ \<Rightarrow> Inr (Some (strip_chars (\<lambda>c. c = CHR 0x22) r, url))
            | _ \<Rightarrow> Inl IndexError))"

fun link_parts :: "string list \<Rightarrow> (string \<rightharpoonup> string) \<Rightarrow> error + (string \<rightharpoonup> string)" where
  "link_parts [] links = Inr links"
| "link_parts (p # ps) links =
     (case link_part p of
        Inl e \<Rightarrow> Inl e
      | Inr None \<Rightarrow> link_parts ps links
      | Inr (Some (rel, url)) \<Rightarrow> link_parts ps (links(rel \<mapsto> url)))"

definition parse_link_header :: "string \<Rightarrow> error + (string \<rightharpoonup> string)" where
  "parse_link_header header =
     (if header = [] then Inr Map.empty else link_parts (split CHR '','' header) Map.empty)"

text \<open>Iterating a JSON value, as \<open>list.extend\<close> and \<open>for\<close> do.\<close>

definition py_iter :: "json \<Rightarrow> error + json list" where
  "py_iter j =
     (case j of
        JArr xs \<Rightarrow> Inr xs
      | JStr s \<Rightarrow> Inr (map (\<lambda>c. JStr [c]) s)
      | JObj kvs \<Rightarrow> Inr (map JStr (remdups (map fst kvs)))
      | _ \<Rightarrow> Inl TypeError)"

text \<open>\<open>d.get(k)\<close>: only a dict has the method.\<close>

definition dict_get :: "json \<Rightarrow> string \<Rightarrow> error + json option" where
  "dict_get j k = (case j of JObj kvs \<Rightarrow> Inr (map_of kvs k) | _ \<Rightarrow> Inl AttributeError)"

text \<open>The items one response adds to \<open>all_items\<close>.\<close>

definition page_items :: "string option \<Rightarrow> response \<Rightarrow> error + json list" where
  "page_items item_key resp =
     (case body resp of
        None \<Rightarrow> Inl JSONDecodeError
      | Some data \<Rightarrow>
          (case item_key of
             None \<Rightarrow> Inr [data]
           | Some k \<Rightarrow>
               if k = [] then Inr [data]
               else (case dict_get data k of
                       Inl e \<Rightarrow> Inl e
                     | Inr None \<Rightarrow> Inr []
                     | Inr (Some items) \<Rightarrow> py_iter items)))"

definition link_header :: "response \<Rightarrow> string" where
  "link_header resp = (case link resp of None \<Rightarrow> [] | Some h \<Rightarrow> h)"

text \<open>
  The \<open>while links.get("next")\<close> loop.  It runs as long as the server keeps advertising
  a next page, so it need not end: \<open>None\<close> is not returning.
\<close>

partial_function (option) follow_links ::
    "string option \<Rightarrow> (string \<rightharpoonup> string) \<Rightarrow> json list \<Rightarrow> world
      \<Rightarrow> ((error + json list) \<times> world) option" where
  "follow_links item_key links all_items w =
     (case links ''next'' of
        None \<Rightarrow> Some (Inr all_items, w)
      | Some next_url \<Rightarrow>
          if next_url = [] then Some (Inr all_items, w)
          else
            (case request_with_retries next_url [] 5 w of
               (Inl e, w1) \<Rightarrow> Some (Inl e, w1)
             | (Inr resp, w1) \<Rightarrow>
                 (case page_items item_key resp of
                    Inl e \<Rightarrow> Some (Inl e, w1)
                  | Inr items \<Rightarrow>
                      (case parse_link_header (link_header resp) of
                         Inl e \<Rightarrow> Some (Inl e, w1)
                       | Inr links' \<Rightarrow> follow_links item_key links' (all_items @ items) w1))))"

declare follow_links.simps [code]

text \<open>
  \<open>BASE_URL\<close> of config.py, by the store name of the environment, and
  \<open>urljoin(BASE_URL, endpoint)\<close> for a relative endpoint such as \<open>products.json\<close>.
\<close>

definition BASE_URL :: "string \<Rightarrow> string" where
  "BASE_URL store = ''https://'' @ store @ ''.myshopify.com/admin/api/2024-10/''"

definition setdefault :: "params \<Rightarrow> string \<Rightarrow> json \<Rightarrow> params" where
  "setdefault ps k v = (case map_of ps k of None \<Rightarrow> ps @ [(k, v)] | Some _ \<Rightarrow> ps)"

definition fetch_all_rest ::
    "string \<Rightarrow> params \<Rightarrow> string option \<Rightarrow> world
      \<Rightarrow> ((error + json list) \<times> world) option" where
  "fetch_all_rest endpoint ps item_key w =
     (let url = BASE_URL (shopify_store w) @ endpoint;
          ps' = setdefault ps ''limit'' (JInt 250)
      in case request_with_retries url ps' 5 w of
           (Inl e, w1) \<Rightarrow> Some (Inl e, w1)
         | (Inr resp, w1) \<Rightarrow>
             (case page_items item_key resp of
                Inl e \<Rightarrow> Some (Inl e, w1)
              | Inr items \<Rightarrow>
                  (case parse_link_header (link_header resp) of
                     Inl e \<Rightarrow> Some (Inl e, w1)
                   | Inr links \<Rightarrow> follow_links item_key links items w1)))"

subsection \<open>Vocabulary for the properties of the fetch client\<close>

text \<open>The seconds a 429 response asks for in \<open>Retry-After\<close>, when \<open>int\<close> reads them.\<close>

definition retry_after_secs :: "outcome \<Rightarrow> int option" where
  "retry_after_secs oc =
     (case oc of
        Transport_error \<Rightarrow> None
      | Response r \<Rightarrow>
          if status_code r = 429 then (case retry_after r of None \<Rightarrow> None | Some h \<Rightarrow> py_int h)
          else None)"

text \<open>
  An attempt that ends in a retry: an exception of the transport, a status from 400 to
  599, where a 429 carries no \<open>Retry-After\<close> or one that reads as a number of seconds.
\<close>

definition failed_attempt :: "outcome \<Rightarrow> bool" where
  "failed_attempt oc =
     (case oc of
        Transport_error \<Rightarrow> True
      | Response r \<Rightarrow>
          if status_code r = 429 then
            (case retry_after r of
               None \<Rightarrow> True
             | Some h \<Rightarrow> (case py_int h of None \<Rightarrow> False | Some k \<Rightarrow> 0 \<le> k))
          else 400 \<le> status_code r \<and> status_code r < 600)"

text \<open>A response that \<open>request_with_retries\<close> returns: \<open>raise_for_status\<close> passes it.\<close>

definition accepted :: "response \<Rightarrow> bool" where
  "accepted r = (\<not> (400 \<le> status_code r \<and> status_code r < 600))"

text \<open>An answer that \<open>request_with_retries\<close> does not return: an exception of the
  transport, or a response that \<open>raise_for_status\<close> refuses.\<close>

definition unanswered :: "outcome \<Rightarrow> bool" where
  "unanswered oc = (case oc of Transport_error \<Rightarrow> True | Response r \<Rightarrow> \<not> accepted r)"

text \<open>What the requests and sleeps of the first \<open>m\<close> attempts look like when all of them
  fail, starting from backoff \<open>s\<close>.\<close>

definition failed_events :: "nat \<Rightarrow> int \<Rightarrow> string \<Rightarrow> params \<Rightarrow> world \<Rightarrow> event list" where
  "failed_events m s url ps w =
     concat (map (\<lambda>i. [Sent url ps,
                        Slept (case retry_after_secs (net w (pos w + i)) of
                                 Some k \<Rightarrow> k
                               | None \<Rightarrow> s * 2 ^ i)])
                 [0..<m])"

text \<open>A \<open>Link\<close> header in the format of the API: \<open><url>; rel="name"\<close> segments
  separated by a comma and a space.\<close>

definition link_segment :: "string \<times> string \<Rightarrow> string" where
  "link_segment seg = ''<'' @ fst seg @ ''>; rel='' @ [CHR 0x22] @ snd seg @ [CHR 0x22]"

fun link_value :: "(string \<times> string) list \<Rightarrow> string" where
  "link_value [] = []"
| "link_value [seg] = link_segment seg"
| "link_value (seg # segs) = link_segment seg @ '', '' @ link_value segs"

definition plain_segment :: "string \<times> string \<Rightarrow> bool" where
  "plain_segment seg =
     (fst seg \<noteq> [] \<and> list_all (\<lambda>c. c \<notin> set '',;>'') (fst seg)
      \<and> list_all (\<lambda>c. c \<notin> set ('',;='' @ [CHR 0x22])) (snd seg))"

text \<open>The outcome is a page: an accepted response whose body is an object holding the
  array \<open>items\<close> under \<open>key\<close>, and whose \<open>Link\<close> header holds the segments \<open>segs\<close>
  (no header when there are none).\<close>

definition is_page :: "string \<Rightarrow> outcome \<Rightarrow> json list \<times> (string \<times> string) list \<Rightarrow> bool" where
  "is_page key oc page =
     (case oc of
        Transport_error \<Rightarrow> False
      | Response r \<Rightarrow>
          accepted r
          \<and> (case body r of
                Some (JObj kvs) \<Rightarrow> map_of kvs key = Some (JArr (fst page))
              | _ \<Rightarrow> False)
          \<and> link_header r = link_value (snd page)
          \<and> list_all plain_segment (snd page))"

text \<open>The dict the segments of a header stand for: a later segment replaces an earlier
  one of the same relation.\<close>

definition add_link :: "string \<times> string \<Rightarrow> (string \<rightharpoonup> string) \<Rightarrow> (string \<rightharpoonup> string)" where
  "add_link seg m = m(snd seg \<mapsto> fst seg)"

definition after_failures :: "nat \<Rightarrow> int \<Rightarrow> string \<Rightarrow> params \<Rightarrow> world \<Rightarrow> world" where
  "after_failures m s url ps w =
     w\<lparr>pos := pos w + m, trace := trace w @ failed_events m s url ps w\<rparr>"

subsection \<open>Scripted servers\<close>

text \<open>A server that gives the listed outcomes to the successive requests and cannot be
  reached afterwards, and the world that starts with it.\<close>

definition script :: "outcome list \<Rightarrow> nat \<Rightarrow> outcome" where
  "script xs n = (if n < length xs then xs ! n else Transport_error)"

definition world0 :: "outcome list \<Rightarrow> world" where
  "world0 xs = \<lparr>net = script xs, pos = 0, trace = [], local_utcoffset = (\<lambda>t. 0),
                shopify_store = ''shop''\<rparr>"

definition status_only :: "int \<Rightarrow> string option \<Rightarrow> outcome" where
  "status_only code ra = Response \<lparr>status_code = code, retry_after = ra, link = None, body = None\<rparr>"

text \<open>A response with status 304, and the URL of the orders endpoint of the store
  \<open>shop\<close>.\<close>

definition not_modified :: response where
  "not_modified = \<lparr>status_code = 304, retry_after = None, link = None, body = None\<rparr>"

definition orders_url :: string where
  "orders_url = ''https://shop.myshopify.com/admin/api/2024-10/orders.json''"

definition page_of :: "string \<Rightarrow> json list \<Rightarrow> string option \<Rightarrow> outcome" where
  "page_of key items l =
     Response \<lparr>status_code = 200, retry_after = None, link = l, body = Some (JObj [(key, JArr items)])\<rparr>"

section \<open>Dates and times (the datetime module)\<close>

text \<open>
  A \<open>datetime\<close> by its value: \<open>wall\<close> counts the microseconds from
  0001-01-01T00:00:00 on the datetime's own clock, \<open>utcoffset\<close> is \<open>None\<close> for a naive
  datetime and the offset east of UTC, in microseconds, for an aware one.  The years 1
  to 9999 are the range of the type; arithmetic that leaves it raises \<open>OverflowError\<close>.
\<close>

record datetime =
  wall :: int
  utcoffset :: "int option"

definition US_PER_DAY :: int where
  "US_PER_DAY = 86400000000"

definition MAXORDINAL :: int where
  "MAXORDINAL = 3652059"

definition in_range :: "int \<Rightarrow> bool" where
  "in_range t = (0 \<le> t \<and> t < MAXORDINAL * US_PER_DAY)"

subsection \<open>The proleptic Gregorian calendar\<close>

definition is_leap :: "int \<Rightarrow> bool" where
  "is_leap y = (y mod 4 = 0 \<and> (y mod 100 \<noteq> 0 \<or> y mod 400 = 0))"

definition days_in_month :: "int \<Rightarrow> int \<Rightarrow> int" where
  "days_in_month y m =
     (if m = 2 \<and> is_leap y then 29
      else [31, 28, 31, 30, 31, 30, 31, 31, 30, 31, 30, 31] ! nat (m - 1))"

definition days_before_month :: "int \<Rightarrow> int \<Rightarrow> int" where
  "days_before_month y m =
     [0, 31, 59, 90, 120, 151, 181, 212, 243, 273, 304, 334] ! nat (m - 1)
     + (if 2 < m \<and> is_leap y then 1 else 0)"

definition days_before_year :: "int \<Rightarrow> int" where
  "days_before_year y = (y - 1) * 365 + (y - 1) div 4 - (y - 1) div 100 + (y - 1) div 400"

text \<open>The ordinal of a date, 0001-01-01 being day 1.\<close>

definition ymd2ord :: "int \<Rightarrow> int \<Rightarrow> int \<Rightarrow> int" where
  "ymd2ord y m d = days_before_year y + days_before_month y m + d"

definition ord2ymd :: "int \<Rightarrow> int \<times> int \<times> int" where
  "ord2ymd ordinal =
     (let n = ordinal - 1;
          n400 = n div 146097; n = n mod 146097;
          n100 = n div 36524; n = n mod 36524;
          n4 = n div 1461; n = n mod 1461;
          n1 = n div 365; n = n mod 365;
          year = n400 * 400 + 1 + n100 * 100 + n4 * 4 + n1
      in if n1 = 4 \<or> n100 = 4 then (year - 1, 12, 31)
         else
           let leapyear = (n1 = 3 \<and> (n4 \<noteq> 24 \<or> n100 = 3));
               month = (n + 50) div 32;
               preceding = [0, 31, 59, 90, 120, 151, 181, 212, 243, 273, 304, 334] ! nat (month - 1)
                           + (if 2 < month \<and> leapyear then 1 else 0)
           in if n < preceding
              then let month' = month - 1;
                       preceding' = preceding
                         - ([31, 28, 31, 30, 31, 30, 31, 31, 30, 31, 30, 31] ! nat (month' - 1)
                            + (if month' = 2 \<and> leapyear then 1 else 0))
                   in (year, month', n - preceding' + 1)
              else (year, month, n - preceding + 1))"

subsection \<open>Reading and writing ISO 8601\<close>

text \<open>A run of decimal digits, as a number.\<close>

definition digits :: "string \<Rightarrow> int option" where
  "digits s = (if s \<noteq> [] \<and> list_all is_digit s then Some (int (dec_value s)) else None)"

text \<open>
  \<open>datetime.fromisoformat\<close> as Python 3.11 has it (the function in C of the datetime
  module), which reads the UTF-8 bytes of the string.  A character above 127 takes two
  bytes; a read past the last byte finds the terminating zero.
\<close>

definition utf8 :: "string \<Rightarrow> string" where
  "utf8 s =
     concat (map (\<lambda>c. let n = (of_char c :: nat)
                       in if n < 128 then [c] else [char_of (192 + n div 64), char_of (128 + n mod 64)]) s)"

definition byte_at :: "string \<Rightarrow> nat \<Rightarrow> char" where
  "byte_at bs i = (if i < length bs then bs ! i else CHR 0x00)"

text \<open>\<open>parse_digits\<close>: the number in the \<open>n\<close> bytes from position \<open>p\<close>, all of them digits,
  and the position after them.\<close>

fun parse_digits :: "string \<Rightarrow> nat \<Rightarrow> nat \<Rightarrow> (nat \<times> int) option" where
  "parse_digits bs p 0 = Some (p, 0)"
| "parse_digits bs p (Suc n) =
     (case parse_digits bs p n of
        None \<Rightarrow> None
      | Some (q, v) \<Rightarrow>
          if is_digit (byte_at bs q) then Some (Suc q, v * 10 + int (digit_val (byte_at bs q)))
          else None)"

text \<open>
  Where the date ends: after \<open>YYYY-MM-DD\<close> (10), \<open>YYYYMMDD\<close> (8), \<open>YYYY-Www\<close> (8),
  \<open>YYYYWww\<close> (7), \<open>YYYY-Www-d\<close> (10) or \<open>YYYYWwwd\<close> (8).
\<close>

definition find_isoformat_datetime_separator :: "string \<Rightarrow> nat option" where
  "find_isoformat_datetime_separator bs =
     (let len = length bs in
      if len = 7 then Some 7
      else if byte_at bs 4 = CHR ''-'' then
        (if byte_at bs 5 = CHR ''W'' then
           (if len < 8 then None
            else if 8 < len \<and> byte_at bs 8 = CHR ''-'' then
              (if len = 9 then None
               else if 10 < len \<and> is_digit (byte_at bs 10) then Some 8
               else Some 10)
            else Some 8)
         else Some 10)
      else if byte_at bs 4 = CHR ''W'' then
        (let idx = 7 + length (takeWhile is_digit (drop 7 bs))
         in if idx < 9 then Some idx else if even idx then Some 7 else Some 8)
      else Some 8)"

text \<open>The Monday that starts week 1 of an ISO year, and the date of a day of an ISO week.
  The years 1 to 9999 have the dates; outside them the constructor of the datetime refuses
  what is computed.\<close>

definition iso_week1_monday :: "int \<Rightarrow> int" where
  "iso_week1_monday year =
     (let first_day = ymd2ord year 1 1;
          first_weekday = (first_day + 6) mod 7;
          week1_monday = first_day - first_weekday
      in if 3 < first_weekday then week1_monday + 7 else week1_monday)"

definition iso_to_ymd :: "int \<Rightarrow> int \<Rightarrow> int \<Rightarrow> (int \<times> int \<times> int) option" where
  "iso_to_ymd iso_year iso_week iso_day =
     (let first_weekday = (ymd2ord iso_year 1 1 + 6) mod 7;
          long_year = (first_weekday = 3 \<or> (first_weekday = 2 \<and> is_leap iso_year))
      in if (iso_week \<le> 0 \<or> 53 \<le> iso_week) \<and> \<not> (iso_week = 53 \<and> long_year) then None
         else if iso_day \<le> 0 \<or> 8 \<le> iso_day then None
         else
           let ordinal = iso_week1_monday iso_year + (iso_week - 1) * 7 + iso_day - 1
           in if 1 \<le> iso_year \<and> 1 \<le> ordinal then Some (ord2ymd ordinal) else None)"

definition parse_isoformat_date :: "string \<Rightarrow> nat \<Rightarrow> (int \<times> int \<times> int) option" where
  "parse_isoformat_date bs len =
     (case parse_digits bs 0 4 of
        None \<Rightarrow> None
      | Some (p, year) \<Rightarrow>
          let uses_separator = (byte_at bs p = CHR ''-'');
              p = (if uses_separator then Suc p else p)
          in if byte_at bs p = CHR ''W'' then
               (case parse_digits bs (Suc p) 2 of
                  None \<Rightarrow> None
                | Some (p, iso_week) \<Rightarrow>
                    if p < len then
                      (if uses_separator \<and> byte_at bs p \<noteq> CHR ''-'' then None
                       else (case parse_digits bs (if uses_separator then Suc p else p) 1 of
                               None \<Rightarrow> None
                             | Some (p, iso_day) \<Rightarrow> iso_to_ymd year iso_week iso_day))
                    else iso_to_ymd year iso_week 1)
             else
               (case parse_digits bs p 2 of
                  None \<Rightarrow> None
                | Some (p, month) \<Rightarrow>
                    if uses_separator \<and> byte_at bs p \<noteq> CHR ''-'' then None
                    else (case parse_digits bs (if uses_separator then Suc p else p) 2 of
                            None \<Rightarrow> None
                          | Some (p, day) \<Rightarrow> Some (year, month, day))))"

text \<open>
  \<open>parse_hh_mm_ss_ff\<close> reads \<open>HH[:MM[:SS]]\<close>, or the same without colons, and a fraction
  after \<open>.\<close> or \<open>,\<close>, in the bytes from \<open>p\<close> to \<open>p_end\<close>.  Its loop over the three
  components either returns, or goes on to the fraction at a position, or fails.  What it
  returns carries, with the components, whether a byte other than the terminator
  follows what was read.
\<close>

datatype hms = Hms_fail | Hms_return bool "int list" | Hms_fraction nat "int list"

fun hh_mm_ss :: "string \<Rightarrow> nat \<Rightarrow> nat \<Rightarrow> bool \<Rightarrow> bool \<Rightarrow> nat \<Rightarrow> int list \<Rightarrow> hms" where
  "hh_mm_ss bs p_end 0 first has_separator p vals = Hms_fraction p vals"
| "hh_mm_ss bs p_end (Suc n) first has_separator p vals =
     (case parse_digits bs p 2 of
        None \<Rightarrow> Hms_fail
      | Some (q, v) \<Rightarrow>
          let c = byte_at bs q;
              has_separator = (if first then c = CHR '':'' else has_separator)
          in if p_end \<le> Suc q then Hms_return (c \<noteq> CHR 0x00) (vals @ [v])
             else if has_separator \<and> c = CHR '':'' then
               hh_mm_ss bs p_end n False has_separator (Suc q) (vals @ [v])
             else if c = CHR ''.'' \<or> c = CHR '','' then Hms_fraction (Suc q) (vals @ [v])
             else if \<not> has_separator then hh_mm_ss bs p_end n False has_separator q (vals @ [v])
             else Hms_fail)"

definition component :: "int list \<Rightarrow> nat \<Rightarrow> int" where
  "component vals i = (if i < length vals then vals ! i else 0)"

definition parse_hh_mm_ss_ff ::
    "string \<Rightarrow> nat \<Rightarrow> nat \<Rightarrow> (bool \<times> int \<times> int \<times> int \<times> int) option" where
  "parse_hh_mm_ss_ff bs p p_end =
     (case hh_mm_ss bs p_end 3 True True p [] of
        Hms_fail \<Rightarrow> None
      | Hms_return trailing vals \<Rightarrow> Some (trailing, component vals 0, component vals 1, component vals 2, 0)
      | Hms_fraction q vals \<Rightarrow>
          (let to_parse = min (p_end - q) 6 in
           case parse_digits bs q to_parse of
             None \<Rightarrow> None
           | Some (r, us) \<Rightarrow>
               let us = (if to_parse < 6 then us * [100000, 10000, 1000, 100, 10] ! (to_parse - 1) else us);
                   r = r + length (takeWhile is_digit (drop r bs))
               in Some (byte_at bs r \<noteq> CHR 0x00, component vals 0, component vals 1, component vals 2, us)))"

text \<open>
  The time of day from position \<open>p\<close>, with its offset: the offset starts at the first
  \<open>Z\<close>, \<open>+\<close> or \<open>-\<close>.  The result is the time of day in microseconds and the offset, in
  seconds and microseconds, when there is one.  What follows the time of day before the
  offset is not looked at.
\<close>

definition parse_isoformat_time ::
    "string \<Rightarrow> nat \<Rightarrow> ((int \<times> int \<times> int \<times> int) \<times> (int \<times> int) option) option" where
  "parse_isoformat_time bs p =
     (let p_end = length bs;
          tzinfo_pos = p + length (takeWhile (\<lambda>c. c \<notin> set ''Z+-'') (drop p bs))
      in case parse_hh_mm_ss_ff bs p tzinfo_pos of
           None \<Rightarrow> None
         | Some (trailing, t) \<Rightarrow>
             if p_end \<le> tzinfo_pos then (if trailing then None else Some (t, None))
             else if byte_at bs tzinfo_pos = CHR ''Z'' then
               (if byte_at bs (Suc tzinfo_pos) \<noteq> CHR 0x00 then None else Some (t, Some (0, 0)))
             else
               (let tzsign = (if byte_at bs tzinfo_pos = CHR ''-'' then - 1 else 1)
                in case parse_hh_mm_ss_ff bs (Suc tzinfo_pos) p_end of
                     None \<Rightarrow> None
                   | Some (trailing, tzhour, tzminute, tzsecond, tzmicrosecond) \<Rightarrow>
                       if trailing then None
                       else Some (t, Some (tzsign * (tzhour * 3600 + tzminute * 60 + tzsecond),
                                           tzsign * tzmicrosecond))))"

text \<open>
  The offset of the time zone made of the seconds and microseconds read: zero seconds are
  UTC whatever the microseconds, and an offset reaches less than a day.
\<close>

definition tzinfo_from_isoformat_results :: "(int \<times> int) option \<Rightarrow> int option option" where
  "tzinfo_from_isoformat_results tz =
     (case tz of
        None \<Rightarrow> Some None
      | Some (tzoffset, tz_useconds) \<Rightarrow>
          if tzoffset = 0 then Some (Some 0)
          else let off = tzoffset * 1000000 + tz_useconds
               in if - US_PER_DAY < off \<and> off < US_PER_DAY then Some (Some off) else None)"

text \<open>
  \<open>datetime.fromisoformat\<close>: the date, one separating character, and the time with its
  offset, when something follows the date.  \<open>None\<close> is the \<open>ValueError\<close>, of the parser or
  of the constructor, which wants a date of the calendar and a time of the day.
\<close>

definition fromisoformat :: "string \<Rightarrow> datetime option" where
  "fromisoformat s =
     (let bs = utf8 s; len = length bs in
      if len < 7 then None
      else
        (case find_isoformat_datetime_separator bs of
           None \<Rightarrow> None
         | Some separator_location \<Rightarrow>
             (case parse_isoformat_date bs separator_location of
                None \<Rightarrow> None
              | Some (year, month, day) \<Rightarrow>
                  (case (if separator_location < len then
                           parse_isoformat_time bs
                             (separator_location
                              + (if (of_char (byte_at bs separator_location) :: nat) < 128 then 1 else 2))
                         else Some ((0, 0, 0, 0), None)) of
                     None \<Rightarrow> None
                   | Some ((hour, minute, second, microsecond), tz) \<Rightarrow>
                       (case tzinfo_from_isoformat_results tz of
                          None \<Rightarrow> None
                        | Some tzinfo \<Rightarrow>
                            if 1 \<le> year \<and> year \<le> 9999 \<and> 1 \<le> month \<and> month \<le> 12
                               \<and> 1 \<le> day \<and> day \<le> days_in_month year month
                               \<and> hour < 24 \<and> minute < 60 \<and> second < 60
                            then Some \<lparr>wall = (ymd2ord year month day - 1) * US_PER_DAY
                                               + ((hour * 60 + minute) * 60 + second) * 1000000
                                               + microsecond,
                                       utcoffset = tzinfo\<rparr>
                            else None)))))"

definition digit_char :: "int \<Rightarrow> char" where
  "digit_char d = ''0123456789'' ! nat (d mod 10)"

definition pad2 :: "int \<Rightarrow> string" where
  "pad2 n = [digit_char (n div 10), digit_char n]"

definition pad4 :: "int \<Rightarrow> string" where
  "pad4 n = pad2 (n div 100) @ pad2 n"

definition pad6 :: "int \<Rightarrow> string" where
  "pad6 n = pad2 (n div 10000) @ pad4 n"

definition format_offset :: "int \<Rightarrow> string" where
  "format_offset off =
     (let a = \<bar>off\<bar>; secs = a div 1000000; us = a mod 1000000;
          hh = secs div 3600; mm = secs mod 3600 div 60; ss = secs mod 60
      in (if off < 0 then ''-'' else ''+'') @ pad2 hh @ '':'' @ pad2 mm
         @ (if ss \<noteq> 0 \<or> us \<noteq> 0 then '':'' @ pad2 ss @ (if us \<noteq> 0 then ''.'' @ pad6 us else [])
            else []))"

definition isoformat :: "datetime \<Rightarrow> string" where
  "isoformat d =
     (let days = wall d div US_PER_DAY; tod = wall d mod US_PER_DAY;
          secs = tod div 1000000; us = tod mod 1000000
      in case ord2ymd (days + 1) of
           (y, m, dd) \<Rightarrow>
             pad4 y @ ''-'' @ pad2 m @ ''-'' @ pad2 dd @ ''T''
             @ pad2 (secs div 3600) @ '':'' @ pad2 (secs mod 3600 div 60) @ '':'' @ pad2 (secs mod 60)
             @ (if us \<noteq> 0 then ''.'' @ pad6 us else [])
             @ (case utcoffset d of None \<Rightarrow> [] | Some off \<Rightarrow> format_offset off))"

subsection \<open>Arithmetic, comparison, conversion\<close>

text \<open>\<open>dt - timedelta(microseconds = us)\<close>.\<close>

definition minus_timedelta :: "datetime \<Rightarrow> int \<Rightarrow> error + datetime" where
  "minus_timedelta d us =
     (if in_range (wall d - us) then Inr (d\<lparr>wall := wall d - us\<rparr>) else Inl OverflowError)"

text \<open>\<open>a > b\<close>: a naive and an aware datetime do not compare.\<close>

definition datetime_gt :: "datetime \<Rightarrow> datetime \<Rightarrow> error + bool" where
  "datetime_gt a b =
     (case (utcoffset a, utcoffset b) of
        (None, None) \<Rightarrow> Inr (wall b < wall a)
      | (Some oa, Some ob) \<Rightarrow> Inr (wall b - ob < wall a - oa)
      | _ \<Rightarrow> Inl TypeError)"

text \<open>\<open>dt.astimezone(timezone.utc)\<close>: a naive datetime is taken as local time.\<close>

definition astimezone_utc :: "world \<Rightarrow> datetime \<Rightarrow> error + datetime" where
  "astimezone_utc w d =
     (let off = (case utcoffset d of None \<Rightarrow> local_utcoffset w (wall d) | Some off \<Rightarrow> off)
      in if in_range (wall d - off) then Inr \<lparr>wall = wall d - off, utcoffset = Some 0\<rparr>
         else Inl OverflowError)"

text \<open>\<open>isoformat_for_api\<close> of sync.py.\<close>

definition isoformat_for_api :: "world \<Rightarrow> datetime \<Rightarrow> error + string" where
  "isoformat_for_api w dt =
     (case astimezone_utc w dt of
        Inl e \<Rightarrow> Inl e
      | Inr u \<Rightarrow> Inr (isoformat (u\<lparr>utcoffset := None\<rparr>) @ ''Z''))"

section \<open>The relational store (database.py)\<close>

subsection \<open>Values and their binding\<close>

text \<open>
  A value held in a column.  Column affinity, which converts a value after it is bound,
  is not modelled: a row holds the values as they were bound.
\<close>

datatype sqlval = SNull | SInt int | SReal pyfloat | SText string

definition to_lower :: "char \<Rightarrow> char" where
  "to_lower c = (let n = (of_char c :: nat) in if 65 \<le> n \<and> n \<le> 90 then char_of (n + 32) else c)"

text \<open>The text of a float without its sign, in lower case.\<close>

definition unsigned_lower :: "string \<Rightarrow> string" where
  "unsigned_lower s =
     map to_lower (case s of [] \<Rightarrow> [] | c # cs \<Rightarrow> if c = CHR ''-'' \<or> c = CHR ''+'' then cs else s)"

definition is_nan :: "pyfloat \<Rightarrow> bool" where
  "is_nan f = (case f of Float_of_int i \<Rightarrow> False | Float_of_str s \<Rightarrow> unsigned_lower s = ''nan'')"

text \<open>
  How the sqlite3 module binds a Python value: \<open>None\<close> is NULL, a bool is an integer,
  an integer must fit 64 bits, a NaN is stored as NULL, a list or a dict is refused with
  \<open>ProgrammingError\<close> (\<open>InterfaceError\<close> before Python 3.11).
\<close>

definition bind_param :: "json \<Rightarrow> error + sqlval" where
  "bind_param j =
     (case j of
        JNull \<Rightarrow> Inr SNull
      | JBool b \<Rightarrow> Inr (SInt (if b then 1 else 0))
      | JInt i \<Rightarrow> if - (2 ^ 63) \<le> i \<and> i < 2 ^ 63 then Inr (SInt i) else Inl OverflowError
      | JFloat f \<Rightarrow> Inr (if is_nan f then SNull else SReal f)
      | JStr s \<Rightarrow> Inr (SText s)
      | JArr xs \<Rightarrow> Inl ProgrammingError
      | JObj kvs \<Rightarrow> Inl ProgrammingError)"

text \<open>The value of \<open>d.get(k)\<close>, bound: a missing key is \<open>None\<close>.\<close>

definition bind_get :: "(string \<times> json) list \<Rightarrow> string \<Rightarrow> error + sqlval" where
  "bind_get kvs k = (case map_of kvs k of None \<Rightarrow> Inr SNull | Some j \<Rightarrow> bind_param j)"

text \<open>Binding the parameters of one statement, in order; the first failure is raised.\<close>

fun bind_all :: "(error + sqlval) list \<Rightarrow> error + sqlval list" where
  "bind_all [] = Inr []"
| "bind_all (x # xs) =
     (case x of
        Inl e \<Rightarrow> Inl e
      | Inr v \<Rightarrow> (case bind_all xs of Inl e \<Rightarrow> Inl e | Inr vs \<Rightarrow> Inr (v # vs)))"

subsection \<open>Tables\<close>

text \<open>
  A table with an \<open>INTEGER PRIMARY KEY\<close>: its rows by rowid, in the order of the rowids.
  \<open>upsert\<close> is what \<open>INSERT OR REPLACE\<close> does once the rowid is known.
\<close>

type_synonym 'r table = "(int \<times> 'r) list"

fun upsert :: "int \<Rightarrow> 'r \<Rightarrow> 'r table \<Rightarrow> 'r table" where
  "upsert k r [] = [(k, r)]"
| "upsert k r ((k', r') # t) =
     (if k < k' then (k, r) # (k', r') # t
      else if k = k' then (k, r) # t
      else (k', r') # upsert k r t)"

text \<open>The rowid SQLite gives a row inserted with a NULL key: one more than the largest in
  use, 1 in an empty table.  (Past the largest 64-bit rowid SQLite draws one at random;
  that is not modelled.)\<close>

definition next_rowid :: "'r table \<Rightarrow> int" where
  "next_rowid t = (case map fst t of [] \<Rightarrow> 1 | k # ks \<Rightarrow> fold max ks k + 1)"

text \<open>A text that is a plain decimal integer.\<close>

definition integer_text :: "string \<Rightarrow> int option" where
  "integer_text s =
     (case s of
        [] \<Rightarrow> None
      | c # cs \<Rightarrow> if c = CHR ''-'' then map_option uminus (digits cs) else digits s)"

text \<open>
  \<open>INSERT OR REPLACE\<close> of a row under the bound value of its \<open>id\<close>.  A NULL key gets
  a fresh rowid.  A key that is no integer is a datatype mismatch; of the texts only plain
  decimal integers are taken as integers here, and no float is.
\<close>

definition insert_or_replace :: "sqlval \<Rightarrow> 'r \<Rightarrow> 'r table \<Rightarrow> error + 'r table" where
  "insert_or_replace key r t =
     (case key of
        SNull \<Rightarrow> Inr (upsert (next_rowid t) r t)
      | SInt i \<Rightarrow> Inr (upsert i r t)
      | SReal f \<Rightarrow> Inl IntegrityError
      | SText s \<Rightarrow> (case integer_text s of None \<Rightarrow> Inl IntegrityError | Some i \<Rightarrow> Inr (upsert i r t)))"

text \<open>A \<open>NOT NULL\<close> column.\<close>

definition not_null :: "sqlval \<Rightarrow> error + sqlval" where
  "not_null v = (if v = SNull then Inl IntegrityError else Inr v)"

subsection \<open>The schema\<close>

text \<open>
  The rows of the five tables, without the \<open>id\<close> they are stored under.  \<open>raw_json\<close>
  holds the text \<open>json.dumps\<close> makes of the record; the model keeps the record.
\<close>

record product_row =
  p_title :: sqlval
  p_vendor :: sqlval
  p_product_type :: sqlval
  p_created_at :: sqlval
  p_updated_at :: sqlval
  p_raw_json :: json

record variant_row =
  v_product_id :: sqlval
  v_title :: sqlval
  v_sku :: sqlval
  v_price :: sqlval
  v_compare_at_price :: sqlval
  v_position :: sqlval
  v_option1 :: sqlval
  v_option2 :: sqlval
  v_option3 :: sqlval
  v_created_at :: sqlval
  v_updated_at :: sqlval
  v_raw_json :: json

record customer_row =
  c_first_name :: sqlval
  c_last_name :: sqlval
  c_email :: sqlval
  c_phone :: sqlval
  c_created_at :: sqlval
  c_updated_at :: sqlval
  c_raw_json :: json

record order_row =
  o_order_number :: sqlval
  o_customer_id :: sqlval
  o_email :: sqlval
  o_total_price :: sqlval
  o_currency :: sqlval
  o_created_at :: sqlval
  o_updated_at :: sqlval
  o_financial_status :: sqlval
  o_fulfillment_status :: sqlval
  o_raw_json :: json

record line_item_row =
  li_order_id :: sqlval
  li_product_id :: sqlval
  li_variant_id :: sqlval
  li_title :: sqlval
  li_quantity :: sqlval
  li_price :: sqlval
  li_sku :: sqlval
  li_raw_json :: json

record database =
  products :: "product_row table"
  product_variants :: "variant_row table"
  customers :: "customer_row table"
  orders :: "order_row table"
  line_items :: "line_item_row table"
  metadata :: "string \<rightharpoonup> string"

definition empty_db :: database where
  "empty_db = \<lparr>products = [], product_variants = [], customers = [], orders = [],
               line_items = [], metadata = Map.empty\<rparr>"

text \<open>
  \<open>init_db\<close> creates the tables that are missing and adds the columns that are
  missing; it writes no row and changes none.
\<close>

definition init_db :: "database \<Rightarrow> database" where
  "init_db d = d"

definition db_set_metadata :: "string \<Rightarrow> string \<Rightarrow> database \<Rightarrow> database" where
  "db_set_metadata key v d = d\<lparr>metadata := (metadata d)(key \<mapsto> v)\<rparr>"

definition db_get_metadata :: "string \<Rightarrow> database \<Rightarrow> string option" where
  "db_get_metadata key d = metadata d key"

section \<open>The sync passes (sync.py)\<close>

subsection \<open>Python built-ins the passes use\<close>

text \<open>The text of a Python float: a number with an optional fraction and exponent, or
  an infinity or a NaN; white space around it and a sign before it are allowed.\<close>

definition float_mantissa :: "string \<Rightarrow> bool" where
  "float_mantissa m =
     (case split CHR ''.'' m of
        [a] \<Rightarrow> digitpart a
      | [a, b] \<Rightarrow> (a = [] \<and> digitpart b) \<or> (digitpart a \<and> (b = [] \<or> digitpart b))
      | _ \<Rightarrow> False)"

definition float_exponent :: "string \<Rightarrow> bool" where
  "float_exponent x =
     (case x of
        [] \<Rightarrow> False
      | c # cs \<Rightarrow> if c = CHR ''-'' \<or> c = CHR ''+'' then digitpart cs else digitpart x)"

definition float_literal :: "string \<Rightarrow> bool" where
  "float_literal s =
     (let u = unsigned_lower (strip_number s);
          m = takeWhile (\<lambda>c. c \<noteq> CHR ''e'') u;
          x = dropWhile (\<lambda>c. c \<noteq> CHR ''e'') u
      in u \<in> {''inf'', ''infinity'', ''nan''}
         \<or> (float_mantissa m \<and> (x = [] \<or> float_exponent (tl x))))"

text \<open>\<open>float(x)\<close>; \<open>None\<close> stands for the \<open>TypeError\<close>, \<open>ValueError\<close> or
  \<open>OverflowError\<close> it raises.\<close>

definition py_float :: "json \<Rightarrow> pyfloat option" where
  "py_float j =
     (case j of
        JNull \<Rightarrow> None
      | JBool b \<Rightarrow> Some (Float_of_int (if b then 1 else 0))
      | JInt i \<Rightarrow> if \<bar>i\<bar> < 2 ^ 1024 - 2 ^ 970 then Some (Float_of_int i) else None
      | JFloat f \<Rightarrow> Some f
      | JStr s \<Rightarrow> if float_literal s then Some (Float_of_str (strip_number s)) else None
      | JArr xs \<Rightarrow> None
      | JObj kvs \<Rightarrow> None)"

text \<open>A float is zero when its mantissa has no digit but 0; rounding to zero of a
  literal too small for a double is not modelled.\<close>

definition float_is_zero :: "pyfloat \<Rightarrow> bool" where
  "float_is_zero f =
     (case f of
        Float_of_int i \<Rightarrow> i = 0
      | Float_of_str s \<Rightarrow>
          (let u = unsigned_lower (strip_number s)
           in u \<notin> {''inf'', ''infinity'', ''nan''}
              \<and> list_all (\<lambda>c. c \<notin> set ''123456789'') (takeWhile (\<lambda>c. c \<noteq> CHR ''e'') u)))"

text \<open>The truth value of a Python object.\<close>

definition truthy :: "json \<Rightarrow> bool" where
  "truthy j =
     (case j of
        JNull \<Rightarrow> False
      | JBool b \<Rightarrow> b
      | JInt i \<Rightarrow> i \<noteq> 0
      | JFloat f \<Rightarrow> \<not> float_is_zero f
      | JStr s \<Rightarrow> s \<noteq> []
      | JArr xs \<Rightarrow> xs \<noteq> []
      | JObj kvs \<Rightarrow> kvs \<noteq> [])"

text \<open>\<open>s.replace("Z", "+00:00")\<close>.\<close>

definition replace_Z :: "string \<Rightarrow> string" where
  "replace_Z s = concat (map (\<lambda>c. if c = CHR ''Z'' then ''+00:00'' else [c]) s)"

subsection \<open>What the three passes share\<close>

text \<open>
  The price columns: \<open>float(d.get(k, 0.0))\<close> under \<open>try\<close>, with \<open>None\<close> in the
  handler, and the binding of the result.
\<close>

definition try_float :: "json option \<Rightarrow> pyfloat option" where
  "try_float x = (case x of None \<Rightarrow> Some (Float_of_str ''0.0'') | Some j \<Rightarrow> py_float j)"

definition bind_float :: "pyfloat option \<Rightarrow> sqlval" where
  "bind_float x = (case x of None \<Rightarrow> SNull | Some f \<Rightarrow> if is_nan f then SNull else SReal f)"

text \<open>
  The running maximum of \<open>updated_at\<close>: the block under \<open>if updated_at:\<close>.  Every
  exception in it is swallowed, that of a value without \<open>replace\<close>, that of
  \<open>fromisoformat\<close> and that of the comparison.
\<close>

definition bump_max :: "json option \<Rightarrow> datetime option \<Rightarrow> datetime option" where
  "bump_max updated_at max_updated =
     (case updated_at of
        Some (JStr s) \<Rightarrow>
          if s = [] then max_updated
          else (case fromisoformat (replace_Z s) of
                  None \<Rightarrow> max_updated
                | Some dt \<Rightarrow>
                    (case max_updated of
                       None \<Rightarrow> Some dt
                     | Some mx \<Rightarrow>
                         (case datetime_gt dt mx of
                            Inl e \<Rightarrow> max_updated
                          | Inr later \<Rightarrow> if later then Some dt else max_updated)))
      | _ \<Rightarrow> max_updated)"

text \<open>\<open>if max_updated: db_set_metadata(key, max_updated.isoformat())\<close>.\<close>

definition set_watermark :: "string \<Rightarrow> datetime option \<Rightarrow> database \<Rightarrow> database" where
  "set_watermark key max_updated d =
     (case max_updated of None \<Rightarrow> d | Some dt \<Rightarrow> db_set_metadata key (isoformat dt) d)"

text \<open>
  The query parameters of a pass: with a stored watermark, and \<open>incremental\<close> set, the
  watermark less 60 seconds goes into \<open>updated_at_min\<close>.
\<close>

definition sync_params :: "bool \<Rightarrow> string option \<Rightarrow> params \<Rightarrow> world \<Rightarrow> error + params" where
  "sync_params incremental last_sync ps w =
     (case last_sync of
        None \<Rightarrow> Inr ps
      | Some s \<Rightarrow>
          if incremental \<and> s \<noteq> [] then
            (case fromisoformat s of
               None \<Rightarrow> Inl ValueError
             | Some last_dt \<Rightarrow>
                 (case minus_timedelta last_dt (60 * 1000000) of
                    Inl e \<Rightarrow> Inl e
                  | Inr dt \<Rightarrow>
                      (case isoformat_for_api w dt of
                         Inl e \<Rightarrow> Inl e
                       | Inr stamp \<Rightarrow> Inr (ps @ [(''updated_at_min'', JStr stamp)]))))
          else Inr ps)"

subsection \<open>Products and their variants\<close>

definition variant_step :: "json \<Rightarrow> json \<Rightarrow> variant_row table \<Rightarrow> error + variant_row table" where
  "variant_step pid v t =
     (case v of
        JObj kvs \<Rightarrow>
          (case map_of kvs ''id'' of
             None \<Rightarrow> Inl KeyError
           | Some vid \<Rightarrow>
               (case bind_all [bind_param vid, bind_param pid, bind_get kvs ''title'',
                       bind_get kvs ''sku'', bind_get kvs ''price'', bind_get kvs ''compare_at_price'',
                       bind_get kvs ''position'', bind_get kvs ''option1'', bind_get kvs ''option2'',
                       bind_get kvs ''option3'', bind_get kvs ''created_at'', bind_get kvs ''updated_at''] of
                  Inl e \<Rightarrow> Inl e
                | Inr vs \<Rightarrow>
                    (case not_null (vs ! 1) of
                       Inl e \<Rightarrow> Inl e
                     | Inr product_id \<Rightarrow>
                         insert_or_replace (vs ! 0)
                           \<lparr>v_product_id = product_id, v_title = vs ! 2, v_sku = vs ! 3,
                            v_price = vs ! 4, v_compare_at_price = vs ! 5, v_position = vs ! 6,
                            v_option1 = vs ! 7, v_option2 = vs ! 8, v_option3 = vs ! 9,
                            v_created_at = vs ! 10, v_updated_at = vs ! 11, v_raw_json = v\<rparr> t)))
      | _ \<Rightarrow> Inl TypeError)"

fun variants_loop :: "json \<Rightarrow> json list \<Rightarrow> variant_row table \<Rightarrow> error + variant_row table" where
  "variants_loop pid [] t = Inr t"
| "variants_loop pid (v # vs) t =
     (case variant_step pid v t of Inl e \<Rightarrow> Inl e | Inr t' \<Rightarrow> variants_loop pid vs t')"

type_synonym products_acc = "product_row table \<times> variant_row table \<times> datetime option"

definition product_step :: "json \<Rightarrow> products_acc \<Rightarrow> error + products_acc" where
  "product_step p acc =
     (case acc of (pt, vt, max_updated) \<Rightarrow>
      (case p of
         JObj kvs \<Rightarrow>
           (case map_of kvs ''id'' of
              None \<Rightarrow> Inl KeyError
            | Some pid \<Rightarrow>
                (case bind_all [bind_param pid, bind_get kvs ''title'', bind_get kvs ''vendor'',
                        bind_get kvs ''product_type'', bind_get kvs ''created_at'',
                        bind_get kvs ''updated_at''] of
                   Inl e \<Rightarrow> Inl e
                 | Inr vs \<Rightarrow>
                     (case insert_or_replace (vs ! 0)
                             \<lparr>p_title = vs ! 1, p_vendor = vs ! 2, p_product_type = vs ! 3,
                              p_created_at = vs ! 4, p_updated_at = vs ! 5, p_raw_json = p\<rparr> pt of
                        Inl e \<Rightarrow> Inl e
                      | Inr pt' \<Rightarrow>
                          (case py_iter (case map_of kvs ''variants'' of None \<Rightarrow> JArr [] | Some j \<Rightarrow> j) of
                             Inl e \<Rightarrow> Inl e
                           | Inr variants \<Rightarrow>
                               (case variants_loop pid variants vt of
                                  Inl e \<Rightarrow> Inl e
                                | Inr vt' \<Rightarrow>
                                    Inr (pt', vt', bump_max (map_of kvs ''updated_at'') max_updated))))))
       | _ \<Rightarrow> Inl TypeError))"

fun products_loop :: "json list \<Rightarrow> products_acc \<Rightarrow> error + products_acc" where
  "products_loop [] acc = Inr acc"
| "products_loop (p # ps) acc =
     (case product_step p acc of Inl e \<Rightarrow> Inl e | Inr acc' \<Rightarrow> products_loop ps acc')"

text \<open>
  The pass after the fetch: the loop, the commit, the watermark.  An exception leaves
  the loop before the commit, so what it wrote is rolled back with the connection: the
  result is the exception alone.
\<close>

definition store_products :: "json list \<Rightarrow> database \<Rightarrow> error + nat \<times> database" where
  "store_products items d =
     (case products_loop items (products d, product_variants d, None) of
        Inl e \<Rightarrow> Inl e
      | Inr (pt, vt, max_updated) \<Rightarrow>
          Inr (length items,
               set_watermark ''products_last_sync'' max_updated
                 (d\<lparr>products := pt, product_variants := vt\<rparr>)))"

subsection \<open>Customers\<close>

type_synonym customers_acc = "customer_row table \<times> datetime option"

definition customer_step :: "json \<Rightarrow> customers_acc \<Rightarrow> error + customers_acc" where
  "customer_step c acc =
     (case acc of (ct, max_updated) \<Rightarrow>
      (case c of
         JObj kvs \<Rightarrow>
           (case map_of kvs ''id'' of
              None \<Rightarrow> Inl KeyError
            | Some cid \<Rightarrow>
                (case bind_all [bind_param cid, bind_get kvs ''first_name'', bind_get kvs ''last_name'',
                        bind_get kvs ''email'', bind_get kvs ''phone'', bind_get kvs ''created_at'',
                        bind_get kvs ''updated_at''] of
                   Inl e \<Rightarrow> Inl e
                 | Inr vs \<Rightarrow>
                     (case insert_or_replace (vs ! 0)
                             \<lparr>c_first_name = vs ! 1, c_last_name = vs ! 2, c_email = vs ! 3,
                              c_phone = vs ! 4, c_created_at = vs ! 5, c_updated_at = vs ! 6,
                              c_raw_json = c\<rparr> ct of
                        Inl e \<Rightarrow> Inl e
                      | Inr ct' \<Rightarrow> Inr (ct', bump_max (map_of kvs ''updated_at'') max_updated))))
       | _ \<Rightarrow> Inl TypeError))"

fun customers_loop :: "json list \<Rightarrow> customers_acc \<Rightarrow> error + customers_acc" where
  "customers_loop [] acc = Inr acc"
| "customers_loop (c # cs) acc =
     (case customer_step c acc of Inl e \<Rightarrow> Inl e | Inr acc' \<Rightarrow> customers_loop cs acc')"

definition store_customers :: "json list \<Rightarrow> database \<Rightarrow> error + nat \<times> database" where
  "store_customers items d =
     (case customers_loop items (customers d, None) of
        Inl e \<Rightarrow> Inl e
      | Inr (ct, max_updated) \<Rightarrow>
          Inr (length items, set_watermark ''customers_last_sync'' max_updated (d\<lparr>customers := ct\<rparr>)))"

subsection \<open>Orders and their line items\<close>

text \<open>\<open>li.get\<close> needs a dict; the key may be missing.\<close>

definition line_item_step :: "json \<Rightarrow> json \<Rightarrow> line_item_row table \<Rightarrow> error + line_item_row table" where
  "line_item_step oid li t =
     (case li of
        JObj kvs \<Rightarrow>
          (let price = try_float (map_of kvs ''price'') in
           case bind_all [bind_get kvs ''id'', bind_param oid, bind_get kvs ''product_id'',
                   bind_get kvs ''variant_id'', bind_get kvs ''title'',
                   (case map_of kvs ''quantity'' of None \<Rightarrow> Inr (SInt 0) | Some q \<Rightarrow> bind_param q),
                   bind_get kvs ''sku''] of
             Inl e \<Rightarrow> Inl e
           | Inr vs \<Rightarrow>
               (case not_null (vs ! 1) of
                  Inl e \<Rightarrow> Inl e
                | Inr order_id \<Rightarrow>
                    insert_or_replace (vs ! 0)
                      \<lparr>li_order_id = order_id, li_product_id = vs ! 2, li_variant_id = vs ! 3,
                       li_title = vs ! 4, li_quantity = vs ! 5, li_price = bind_float price,
                       li_sku = vs ! 6, li_raw_json = li\<rparr> t))
      | _ \<Rightarrow> Inl AttributeError)"

fun line_items_loop :: "json \<Rightarrow> json list \<Rightarrow> line_item_row table \<Rightarrow> error + line_item_row table" where
  "line_items_loop oid [] t = Inr t"
| "line_items_loop oid (li # lis) t =
     (case line_item_step oid li t of Inl e \<Rightarrow> Inl e | Inr t' \<Rightarrow> line_items_loop oid lis t')"

text \<open>\<open>customer_id\<close>: the \<open>id\<close> of the embedded customer when there is one.\<close>

definition customer_id_of :: "(string \<times> json) list \<Rightarrow> error + json" where
  "customer_id_of kvs =
     (case map_of kvs ''customer'' of
        None \<Rightarrow> Inr JNull
      | Some customer \<Rightarrow>
          if truthy customer then
            (case dict_get customer ''id'' of
               Inl e \<Rightarrow> Inl e
             | Inr None \<Rightarrow> Inr JNull
             | Inr (Some cid) \<Rightarrow> Inr cid)
          else Inr JNull)"

type_synonym orders_acc = "order_row table \<times> line_item_row table \<times> datetime option"

definition order_step :: "json \<Rightarrow> orders_acc \<Rightarrow> error + orders_acc" where
  "order_step ord acc =
     (case acc of (ot, lt, max_updated) \<Rightarrow>
      (case ord of
         JObj kvs \<Rightarrow>
           (case map_of kvs ''id'' of
              None \<Rightarrow> Inl KeyError
            | Some oid \<Rightarrow>
                (case customer_id_of kvs of
                   Inl e \<Rightarrow> Inl e
                 | Inr customer_id \<Rightarrow>
                     (let total_price = try_float (map_of kvs ''total_price'') in
                      case bind_all [bind_param oid, bind_get kvs ''order_number'',
                              bind_param customer_id, bind_get kvs ''email'', bind_get kvs ''currency'',
                              bind_get kvs ''created_at'', bind_get kvs ''updated_at'',
                              bind_get kvs ''financial_status'', bind_get kvs ''fulfillment_status''] of
                        Inl e \<Rightarrow> Inl e
                      | Inr vs \<Rightarrow>
                          (case insert_or_replace (vs ! 0)
                                  \<lparr>o_order_number = vs ! 1, o_customer_id = vs ! 2, o_email = vs ! 3,
                                   o_total_price = bind_float total_price, o_currency = vs ! 4,
                                   o_created_at = vs ! 5, o_updated_at = vs ! 6,
                                   o_financial_status = vs ! 7, o_fulfillment_status = vs ! 8,
                                   o_raw_json = ord\<rparr> ot of
                             Inl e \<Rightarrow> Inl e
                           | Inr ot' \<Rightarrow>
                               (case py_iter (case map_of kvs ''line_items'' of
                                                None \<Rightarrow> JArr [] | Some j \<Rightarrow> j) of
                                  Inl e \<Rightarrow> Inl e
                                | Inr lis \<Rightarrow>
                                    (case line_items_loop oid lis lt of
                                       Inl e \<Rightarrow> Inl e
                                     | Inr lt' \<Rightarrow>
                                         Inr (ot', lt',
                                              bump_max (map_of kvs ''updated_at'') max_updated)))))))
       | _ \<Rightarrow> Inl TypeError))"

fun orders_loop :: "json list \<Rightarrow> orders_acc \<Rightarrow> error + orders_acc" where
  "orders_loop [] acc = Inr acc"
| "orders_loop (ord # ords) acc =
     (case order_step ord acc of Inl e \<Rightarrow> Inl e | Inr acc' \<Rightarrow> orders_loop ords acc')"

definition store_orders :: "json list \<Rightarrow> database \<Rightarrow> error + nat \<times> database" where
  "store_orders items d =
     (case orders_loop items (orders d, line_items d, None) of
        Inl e \<Rightarrow> Inl e
      | Inr (ot, lt, max_updated) \<Rightarrow>
          Inr (length items,
               set_watermark ''orders_last_sync'' max_updated (d\<lparr>orders := ot, line_items := lt\<rparr>)))"

subsection \<open>The passes and the pipeline (main.py)\<close>

record state =
  db :: database
  env :: world

text \<open>
  One pass: the parameters, the fetch, the store.  The fetch comes before the connection
  to the database is opened.  \<open>None\<close> is a fetch that does not end.
\<close>

definition sync_pass ::
    "string \<Rightarrow> string \<Rightarrow> string \<Rightarrow> params \<Rightarrow> (json list \<Rightarrow> database \<Rightarrow> error + nat \<times> database)
      \<Rightarrow> bool \<Rightarrow> state \<Rightarrow> ((error + nat) \<times> state) option" where
  "sync_pass watermark_key endpoint item_key ps store incremental st =
     (case sync_params incremental (db_get_metadata watermark_key (db st)) ps (env st) of
        Inl e \<Rightarrow> Some (Inl e, st)
      | Inr ps' \<Rightarrow>
          (case fetch_all_rest endpoint ps' (Some item_key) (env st) of
             None \<Rightarrow> None
           | Some (Inl e, w) \<Rightarrow> Some (Inl e, st\<lparr>env := w\<rparr>)
           | Some (Inr items, w) \<Rightarrow>
               (case store items (db st) of
                  Inl e \<Rightarrow> Some (Inl e, st\<lparr>env := w\<rparr>)
                | Inr (n, d) \<Rightarrow> Some (Inr n, \<lparr>db = d, env = w\<rparr>))))"

definition fetch_and_store_products :: "bool \<Rightarrow> state \<Rightarrow> ((error + nat) \<times> state) option" where
  "fetch_and_store_products incremental st =
     sync_pass ''products_last_sync'' ''products.json'' ''products'' [(''limit'', JInt 250)]
       store_products incremental st"

definition fetch_and_store_customers :: "bool \<Rightarrow> state \<Rightarrow> ((error + nat) \<times> state) option" where
  "fetch_and_store_customers incremental st =
     sync_pass ''customers_last_sync'' ''customers.json'' ''customers'' [(''limit'', JInt 250)]
       store_customers incremental st"

definition fetch_and_store_orders :: "bool \<Rightarrow> string \<Rightarrow> state \<Rightarrow> ((error + nat) \<times> state) option" where
  "fetch_and_store_orders incremental status st =
     sync_pass ''orders_last_sync'' ''orders.json'' ''orders''
       [(''limit'', JInt 250), (''status'', JStr status)] store_orders incremental st"

text \<open>
  \<open>run_full_sync\<close> up to the last pass; the steps after it (CSV export, analytics,
  the sheets) read the store and are not modelled.  The result holds the three counts
  the function logs.  An exception of a pass is logged and raised again.
\<close>

definition run_full_sync :: "bool \<Rightarrow> state \<Rightarrow> ((error + nat \<times> nat \<times> nat) \<times> state) option" where
  "run_full_sync incremental st =
     (case fetch_and_store_products incremental (st\<lparr>db := init_db (db st)\<rparr>) of
        None \<Rightarrow> None
      | Some (Inl e, st1) \<Rightarrow> Some (Inl e, st1)
      | Some (Inr products_count, st1) \<Rightarrow>
          (case fetch_and_store_customers incremental st1 of
             None \<Rightarrow> None
           | Some (Inl e, st2) \<Rightarrow> Some (Inl e, st2)
           | Some (Inr customers_count, st2) \<Rightarrow>
               (case fetch_and_store_orders incremental ''any'' st2 of
                  None \<Rightarrow> None
                | Some (Inl e, st3) \<Rightarrow> Some (Inl e, st3)
                | Some (Inr orders_count, st3) \<Rightarrow>
                    Some (Inr (products_count, customers_count, orders_count), st3))))"

section \<open>Vocabulary for the properties of the passes\<close>

text \<open>A batch of writes to one table, applied in order.\<close>

definition apply_writes :: "(int \<times> 'r) list \<Rightarrow> 'r table \<Rightarrow> 'r table" where
  "apply_writes ws t = fold (\<lambda>kr. upsert (fst kr) (snd kr)) ws t"

text \<open>The store after the store step of a pass: a step that raises commits nothing.\<close>

definition after_store ::
    "(json list \<Rightarrow> database \<Rightarrow> error + nat \<times> database) \<Rightarrow> json list \<Rightarrow> database \<Rightarrow> database" where
  "after_store store items d = (case store items d of Inl e \<Rightarrow> d | Inr (n, d') \<Rightarrow> d')"

text \<open>
  The record carries an \<open>id\<close> that is bound as NULL (a JSON null, or a NaN); for a line
  item, whose \<open>id\<close> is read with \<open>get\<close>, a missing \<open>id\<close> counts as well.
\<close>

definition null_id :: "json \<Rightarrow> bool" where
  "null_id j =
     (case j of
        JObj kvs \<Rightarrow> (case map_of kvs ''id'' of None \<Rightarrow> False | Some i \<Rightarrow> bind_param i = Inr SNull)
      | _ \<Rightarrow> False)"

definition null_or_missing_id :: "json \<Rightarrow> bool" where
  "null_or_missing_id j = (case j of JObj kvs \<Rightarrow> bind_get kvs ''id'' = Inr SNull | _ \<Rightarrow> False)"

text \<open>The nested records of a record: what the inner loop iterates.\<close>

definition children :: "string \<Rightarrow> json \<Rightarrow> json list" where
  "children key j =
     (case j of
        JObj kvs \<Rightarrow>
          (case map_of kvs key of
             None \<Rightarrow> []
           | Some c \<Rightarrow> (case py_iter c of Inl e \<Rightarrow> [] | Inr xs \<Rightarrow> xs))
      | _ \<Rightarrow> [])"

text \<open>The call returns: it raises nothing.\<close>

definition succeeds :: "error + 'a \<Rightarrow> bool" where
  "succeeds x = (case x of Inl e \<Rightarrow> False | Inr a \<Rightarrow> True)"

text \<open>A record without one of its keys, and an order without its price fields:
  \<open>total_price\<close> of the order and \<open>price\<close> of each line item.\<close>

definition without_key :: "string \<Rightarrow> json \<Rightarrow> json" where
  "without_key k j = (case j of JObj kvs \<Rightarrow> JObj (filter (\<lambda>kv. fst kv \<noteq> k) kvs) | _ \<Rightarrow> j)"

definition without_item_prices :: "json \<Rightarrow> json" where
  "without_item_prices j = (case j of JArr lis \<Rightarrow> JArr (map (without_key ''price'') lis) | _ \<Rightarrow> j)"

definition without_prices :: "json \<Rightarrow> json" where
  "without_prices ord =
     (case ord of
        JObj kvs \<Rightarrow>
          JObj (map (\<lambda>kv. if fst kv = ''line_items'' then (fst kv, without_item_prices (snd kv)) else kv)
                    (filter (\<lambda>kv. fst kv \<noteq> ''total_price'') kvs))
      | _ \<Rightarrow> ord)"

text \<open>Record sets used as examples.\<close>

definition sample_products :: "json list" where
  "sample_products =
     [JObj [(''id'', JInt 10), (''title'', JStr ''Mug''), (''updated_at'', JStr ''2024-05-01T10:00:00Z''),
            (''variants'', JArr [JObj [(''id'', JInt 101), (''price'', JStr ''4.50'')],
                                JObj [(''id'', JInt 102), (''price'', JStr ''5.00'')]])],
      JObj [(''id'', JInt 11), (''title'', JStr ''Cup''), (''updated_at'', JStr ''2024-05-02T09:30:00+02:00'')],
      JObj [(''id'', JInt 10), (''title'', JStr ''Mug, large''),
            (''variants'', JArr [JObj [(''id'', JInt 101), (''price'', JStr ''6.00'')]])]]"

definition sample_customers :: "json list" where
  "sample_customers =
     [JObj [(''id'', JInt 7), (''first_name'', JStr ''Ada''), (''email'', JNull),
            (''updated_at'', JStr ''2024-05-03T08:00:00Z'')],
      JObj [(''id'', JInt 3), (''first_name'', JStr ''Bo'')]]"

definition sample_orders :: "json list" where
  "sample_orders =
     [JObj [(''id'', JInt 1001), (''total_price'', JStr ''abc''),
            (''updated_at'', JStr ''2024-05-31T23:59:30Z''),
            (''customer'', JObj [(''id'', JInt 7)]),
            (''line_items'', JArr [JObj [(''id'', JInt 1), (''price'', JStr ''9.99''), (''quantity'', JInt 2)],
                                   JObj [(''id'', JInt 2), (''price'', JStr ''oops'')],
                                   JObj [(''id'', JInt 3)]])]]"

text \<open>An order whose line item carries no \<open>id\<close>.\<close>

definition order_with_anonymous_item :: "json list" where
  "order_with_anonymous_item =
     [JObj [(''id'', JInt 5), (''line_items'', JArr [JObj [(''title'', JStr ''Gift wrap'')]])]]"

text \<open>Three customers; the \<open>first_name\<close> of the second is an object, which cannot be bound.\<close>

definition faulty_customers :: "json list" where
  "faulty_customers =
     [JObj [(''id'', JInt 1), (''first_name'', JStr ''Ada'')],
      JObj [(''id'', JInt 2), (''first_name'', JObj [(''given'', JStr ''Bo'')])],
      JObj [(''id'', JInt 3), (''first_name'', JStr ''Cy'')]]"

text \<open>
  The datetime a pass reads from the \<open>updated_at\<close> of a record, when it reads one, and
  the datetimes it reads from a record set, in order.
\<close>

definition stamp_of :: "json \<Rightarrow> datetime option" where
  "stamp_of p =
     (case p of
        JObj kvs \<Rightarrow>
          (case map_of kvs ''updated_at'' of
             Some (JStr s) \<Rightarrow> if s = [] then None else fromisoformat (replace_Z s)
           | _ \<Rightarrow> None)
      | _ \<Rightarrow> None)"

definition stamps :: "json list \<Rightarrow> datetime list" where
  "stamps items = List.map_filter stamp_of items"

text \<open>
  The timestamps of the API: \<open>YYYY-MM-DDTHH:MM:SS\<close>, with a fraction of three or six
  digits or none, and with an offset \<open>+HH:MM\<close> or \<open>-HH:MM\<close>, a \<open>Z\<close>, or none.  A shape
  is a string in which \<open>d\<close> stands for a digit and every other character for itself.
  These are strings that \<open>fromisoformat\<close> reads in the same way in every version of
  Python that has it, once \<open>Z\<close> is replaced.
\<close>

fun shaped :: "string \<Rightarrow> string \<Rightarrow> bool" where
  "shaped [] [] = True"
| "shaped (p # ps) (c # cs) = ((if p = CHR ''d'' then is_digit c else c = p) \<and> shaped ps cs)"
| "shaped _ _ = False"

definition api_shapes :: "string list" where
  "api_shapes =
     concat (map (\<lambda>fraction. map (\<lambda>offset. ''dddd-dd-ddTdd:dd:dd'' @ fraction @ offset)
                                   [[], ''+dd:dd'', ''-dd:dd''])
                 [[], ''.ddd'', ''.dddddd''])"

definition api_timestamp :: "string \<Rightarrow> bool" where
  "api_timestamp s = list_ex (\<lambda>shape. shaped shape (replace_Z s)) api_shapes"

text \<open>The \<open>updated_at\<close> of the record, where it is a string and not empty, is a timestamp
  of the API.\<close>

definition api_stamped :: "json \<Rightarrow> bool" where
  "api_stamped p =
     (case p of
        JObj kvs \<Rightarrow>
          (case map_of kvs ''updated_at'' of
             Some (JStr s) \<Rightarrow> s = [] \<or> api_timestamp s
           | _ \<Rightarrow> True)
      | _ \<Rightarrow> True)"

text \<open>The instant of a datetime, in microseconds of UTC; a naive one counts as it
  stands.\<close>

definition utc_micros :: "datetime \<Rightarrow> int" where
  "utc_micros t = wall t - (case utcoffset t of None \<Rightarrow> 0 | Some off \<Rightarrow> off)"

text \<open>The datetimes are all aware or all naive, so that any two of them compare.\<close>

definition same_kind :: "datetime list \<Rightarrow> bool" where
  "same_kind ts = (list_all (\<lambda>t. utcoffset t \<noteq> None) ts \<or> list_all (\<lambda>t. utcoffset t = None) ts)"

text \<open>
  What a pass over \<open>items\<close> does to the watermark under \<open>key\<close>, from the store \<open>d\<close>
  before it to the store \<open>d'\<close> after it: nothing when no datetime was read, and
  otherwise the watermark is the ISO 8601 text of one that no other exceeds.
\<close>

definition watermark_is_max :: "string \<Rightarrow> json list \<Rightarrow> database \<Rightarrow> database \<Rightarrow> bool" where
  "watermark_is_max key items d d' =
     (if stamps items = [] then metadata d' key = metadata d key
      else (\<exists>t \<in> set (stamps items).
              metadata d' key = Some (isoformat t)
              \<and> (\<forall>t' \<in> set (stamps items). utc_micros t' \<le> utc_micros t)))"

text \<open>A product updated thirty seconds before midnight.\<close>

definition late_product :: "json list" where
  "late_product = [JObj [(''id'', JInt 1), (''updated_at'', JStr ''2024-05-31T23:59:30Z'')]]"

text \<open>A store whose products watermark is midnight, a world whose server answers with
  the late product, and the watermark a pass ends with.\<close>

definition midnight_db :: database where
  "midnight_db = db_set_metadata ''products_last_sync'' ''2024-06-01T00:00:00+00:00'' empty_db"

definition late_state :: state where
  "late_state = \<lparr>db = midnight_db, env = world0 [page_of ''products'' late_product None]\<rparr>"

definition watermark_after :: "string \<Rightarrow> ((error + nat) \<times> state) option \<Rightarrow> string option" where
  "watermark_after key r = (case r of None \<Rightarrow> None | Some (x, st) \<Rightarrow> metadata (db st) key)"

section \<open>Properties of the fetch client\<close>

subsection \<open>The retry loop\<close>

lemma retry_loop_failed_step:
  assumes "failed_attempt (net w (pos w))" and "0 \<le> s"
  shows "retry_loop (Suc n) s url ps w =
           retry_loop n (s * 2) url ps
             (w\<lparr>pos := Suc (pos w),
                trace := trace w @ [Sent url ps,
                  Slept (case retry_after_secs (net w (pos w)) of Some k \<Rightarrow> k | None \<Rightarrow> s)]\<rparr>)"
  using assms
  by (auto simp: failed_attempt_def retry_after_secs_def session_get_def time_sleep_def
           split: outcome.splits option.splits if_splits)

lemma failed_events_Suc:
  "failed_events (Suc m) s url ps w =
     [Sent url ps, Slept (case retry_after_secs (net w (pos w)) of Some k \<Rightarrow> k | None \<Rightarrow> s)]
     @ failed_events m (s * 2) url ps
         (w\<lparr>pos := Suc (pos w), trace := t\<rparr>)"
proof -
  have "[0..<Suc m] = 0 # map Suc [0..<m]"
    by (simp add: upt_conv_Cons map_Suc_upt del: upt_Suc)
  then show ?thesis
    by (simp add: failed_events_def comp_def mult.assoc del: upt_Suc cong: option.case_cong)
qed

lemma retry_loop_skip:
  assumes "\<forall>i<m. failed_attempt (net w (pos w + i))" and "0 \<le> s" and "m \<le> n"
  shows "retry_loop n s url ps w = retry_loop (n - m) (s * 2 ^ m) url ps (after_failures m s url ps w)"
  using assms
proof (induction m arbitrary: n s w)
  case 0
  then show ?case by (simp add: after_failures_def failed_events_def)
next
  case (Suc m)
  then obtain n' where n: "n = Suc n'" and le: "m \<le> n'"
    by (cases n) auto
  let ?w = "w\<lparr>pos := Suc (pos w),
                trace := trace w @ [Sent url ps,
                  Slept (case retry_after_secs (net w (pos w)) of Some k \<Rightarrow> k | None \<Rightarrow> s)]\<rparr>"
  have f0: "failed_attempt (net w (pos w))" using Suc.prems(1) by force
  have fs: "\<forall>i<m. failed_attempt (net ?w (pos ?w + i))"
    using Suc.prems(1) by (auto simp: less_Suc_eq_0_disj)
  have "retry_loop n s url ps w = retry_loop n' (s * 2) url ps ?w"
    unfolding n using f0 Suc.prems(2) by (rule retry_loop_failed_step)
  also have "\<dots> = retry_loop (n' - m) (s * 2 * 2 ^ m) url ps (after_failures m (s * 2) url ps ?w)"
    using fs Suc.prems(2) le by (intro Suc.IH) auto
  also have "after_failures m (s * 2) url ps ?w = after_failures (Suc m) s url ps w"
    by (simp add: after_failures_def failed_events_Suc[where t = "trace w @ [Sent url ps,
                  Slept (case retry_after_secs (net w (pos w)) of Some k \<Rightarrow> k | None \<Rightarrow> s)]"])
  finally show ?case by (simp add: n mult.assoc)
qed

subsection \<open>The Link header\<close>

lemma split_no_sep: "c \<notin> set s \<Longrightarrow> split c s = [s]"
  by (induction s) auto

lemma split_append_sep: "c \<notin> set a \<Longrightarrow> split c (a @ c # b) = a # split c b"
  by (induction a) auto

lemma dropWhile_id: "ys = [] \<or> \<not> P (hd ys) \<Longrightarrow> dropWhile P ys = ys"
  by (cases ys) auto

lemma strip_chars_id:
  assumes "s = [] \<or> (\<not> P (hd s) \<and> \<not> P (last s))"
  shows "strip_chars P s = s"
proof -
  have "dropWhile P s = s" using assms by (intro dropWhile_id) auto
  moreover have "dropWhile P (rev s) = rev s"
    using assms by (intro dropWhile_id) (auto simp: hd_rev)
  ultimately show ?thesis by (simp add: strip_chars_def)
qed

lemma strip_space_Cons: "strip (CHR '' '' # s) = strip s"
proof -
  have sp: "is_space CHR '' ''" by (simp add: is_space_def)
  show ?thesis
  proof (cases "dropWhile is_space s = []")
    case True
    then show ?thesis using sp by (simp add: strip_def strip_chars_def)
  next
    case False
    then show ?thesis using sp by (simp add: strip_def strip_chars_def)
  qed
qed

lemma find_first: "c \<notin> set a \<Longrightarrow> find c (a @ c # b) = int (length a)"
  by (induction a) (auto simp: Let_def)

lemma strip_quotes:
  assumes "CHR 0x22 \<notin> set r"
  shows "strip_chars (\<lambda>c. c = CHR 0x22) (CHR 0x22 # r @ [CHR 0x22]) = r"
proof -
  have a: "dropWhile (\<lambda>c. c = CHR 0x22) r = r"
    using assms by (intro dropWhile_id) (cases r, auto)
  have b: "dropWhile (\<lambda>c. c = CHR 0x22) (rev r) = rev r"
    using assms by (intro dropWhile_id) (cases r rule: rev_cases, auto)
  show ?thesis
  proof (cases r)
    case Nil
    then show ?thesis by (simp add: strip_chars_def)
  next
    case (Cons x xs)
    then have "x \<noteq> CHR 0x22" using assms by auto
    then show ?thesis using Cons a b by (simp add: strip_chars_def)
  qed
qed

lemma link_part_segment:
  assumes "plain_segment seg"
  shows "link_part (link_segment seg) = Inr (Some (snd seg, fst seg))"
proof -
  obtain u r where seg: "seg = (u, r)" by (cases seg)
  have u: "CHR '';'' \<notin> set u" "CHR ''>'' \<notin> set u"
    and r: "CHR '';'' \<notin> set r" "CHR ''='' \<notin> set r" "CHR 0x22 \<notin> set r"
    using assms by (auto simp: plain_segment_def seg list_all_iff)
  let ?p = "''<'' @ u @ ''>; rel='' @ [CHR 0x22] @ r @ [CHR 0x22]"
  have p: "link_segment seg = ?p" by (simp add: link_segment_def seg)
  have st: "strip ?p = ?p"
    unfolding strip_def by (rule strip_chars_id) (simp add: is_space_def)
  have sp: "split CHR '';'' ?p = [''<'' @ u @ ''>'', '' rel='' @ [CHR 0x22] @ r @ [CHR 0x22]]"
    using split_append_sep[of "CHR '';''" "''<'' @ u @ ''>''" "'' rel='' @ [CHR 0x22] @ r @ [CHR 0x22]"]
      split_no_sep[of "CHR '';''" "'' rel='' @ [CHR 0x22] @ r @ [CHR 0x22]"] u r
    by (simp del: split.simps)
  have s0: "strip (CHR ''<'' # u @ ''>'') = CHR ''<'' # u @ ''>''"
    unfolding strip_def by (rule strip_chars_id) (simp add: is_space_def)
  have s1: "strip (CHR '' '' # ''rel='' @ CHR 0x22 # r @ [CHR 0x22]) = ''rel='' @ CHR 0x22 # r @ [CHR 0x22]"
  proof -
    have "strip (''rel='' @ CHR 0x22 # r @ [CHR 0x22]) = ''rel='' @ CHR 0x22 # r @ [CHR 0x22]"
      unfolding strip_def by (rule strip_chars_id) (simp add: is_space_def)
    then show ?thesis by (simp only: strip_space_Cons)
  qed
  have f1: "find CHR ''<'' (CHR ''<'' # u @ ''>'') = 0" by simp
  have f2: "find CHR ''>'' (CHR ''<'' # u @ ''>'') = int (length u) + 1"
    using find_first[of "CHR ''>''" "CHR ''<'' # u" "[]"] u by simp
  have sl: "py_slice (CHR ''<'' # u @ ''>'') 1 (int (length u) + 1) = u"
    by (simp add: py_slice_def Let_def)
  have se: "split CHR ''='' (''rel='' @ CHR 0x22 # r @ [CHR 0x22]) = [''rel'', CHR 0x22 # r @ [CHR 0x22]]"
    using split_append_sep[of "CHR ''=''" "''rel''" "CHR 0x22 # r @ [CHR 0x22]"]
      split_no_sep[of "CHR ''=''" "CHR 0x22 # r @ [CHR 0x22]"] r
    by (simp del: split.simps)
  show ?thesis
    unfolding p link_part_def st sp
    using s0 s1 f1 f2 sl se strip_quotes[OF r(3)]
    by (simp add: Let_def seg del: split.simps find.simps)
qed


lemma link_part_space: "link_part (CHR '' '' # p) = link_part p"
  by (simp add: link_part_def strip_space_Cons)

lemma segment_no_comma: "plain_segment seg \<Longrightarrow> CHR '','' \<notin> set (link_segment seg)"
  by (auto simp: plain_segment_def link_segment_def list_all_iff)

lemma link_value_Cons:
  "rest \<noteq> [] \<Longrightarrow> link_value (seg # rest) = link_segment seg @ CHR '','' # CHR '' '' # link_value rest"
  by (cases rest) auto

lemma link_parts_value:
  assumes "list_all plain_segment segs" and "segs \<noteq> []" and "sp = [] \<or> sp = '' ''"
  shows "link_parts (split CHR '','' (sp @ link_value segs)) m =
           Inr (fold add_link segs m)"
  using assms
proof (induction segs arbitrary: sp m)
  case Nil
  then show ?case by simp
next
  case (Cons seg rest)
  have pl: "plain_segment seg" using Cons.prems(1) by simp
  have nc: "CHR '','' \<notin> set (sp @ link_segment seg)"
    using segment_no_comma[OF pl] Cons.prems(3) by auto
  have lp: "link_part (sp @ link_segment seg) = Inr (Some (snd seg, fst seg))"
    using link_part_segment[OF pl] link_part_space[of "link_segment seg"] Cons.prems(3) by auto
  have eq: "m(snd seg \<mapsto> fst seg) = add_link seg m" by (simp add: add_link_def)
  show ?case
  proof (cases "rest = []")
    case True
    then show ?thesis using split_no_sep[OF nc] lp by (simp add: eq)
  next
    case False
    have "split CHR '','' (sp @ link_value (seg # rest)) =
            (sp @ link_segment seg) # split CHR '','' ('' '' @ link_value rest)"
      using split_append_sep[OF nc, of "CHR '' '' # link_value rest"] link_value_Cons[OF False, of seg]
      by simp
    moreover have "link_parts (split CHR '','' ('' '' @ link_value rest)) (m(snd seg \<mapsto> fst seg)) =
            Inr (fold add_link rest (m(snd seg \<mapsto> fst seg)))"
      using Cons.prems(1) False by (intro Cons.IH) auto
    ultimately show ?thesis using lp by (simp add: eq)
  qed
qed

lemma link_value_nonempty: "segs \<noteq> [] \<Longrightarrow> link_value segs \<noteq> []"
  by (cases segs rule: link_value.cases) (auto simp: link_segment_def)

lemma parse_link_value:
  assumes "list_all plain_segment segs"
  shows "parse_link_header (link_value segs) =
           Inr (fold add_link segs Map.empty)"
proof (cases "segs = []")
  case True
  then show ?thesis by (simp add: parse_link_header_def)
next
  case False
  then show ?thesis
    using link_parts_value[OF assms False, of "[]" Map.empty] link_value_nonempty[OF False]
    by (simp add: parse_link_header_def)
qed

lemma add_link_apply: "add_link seg m k = (if k = snd seg then Some (fst seg) else m k)"
  by (simp add: add_link_def)

lemma fold_links_other:
  "k \<notin> snd ` set segs \<Longrightarrow> fold add_link segs m k = m k"
proof (induction segs arbitrary: m)
  case Nil
  then show ?case by simp
next
  case (Cons seg rest)
  then have "fold add_link rest (add_link seg m) k = add_link seg m k" by simp
  also have "\<dots> = m k" using Cons.prems unfolding add_link_def by simp
  finally show ?case by simp
qed

lemma fold_links_present:
  assumes "k \<in> snd ` set segs" and "list_all plain_segment segs"
  shows "\<exists>u. fold add_link segs m k = Some u \<and> u \<noteq> []"
  using assms
proof (induction segs arbitrary: m)
  case Nil
  then show ?case by simp
next
  case (Cons seg rest)
  show ?case
  proof (cases "k \<in> snd ` set rest")
    case True
    then show ?thesis using Cons by simp
  next
    case False
    then have k: "k = snd seg" using Cons.prems(1) by auto
    have "fst seg \<noteq> []" using Cons.prems(2) by (simp add: plain_segment_def)
    moreover have "fold add_link (seg # rest) m k = add_link seg m k"
      using fold_links_other[OF False] by simp
    moreover have "add_link seg m k = Some (fst seg)" unfolding add_link_def k by simp
    ultimately show ?thesis by simp
  qed
qed

subsection \<open>Pagination\<close>

lemma request_accepted_first:
  assumes "net w (pos w) = Response r" and "accepted r"
  shows "request_with_retries url ps (Suc n) w =
           (Inr r, w\<lparr>pos := Suc (pos w), trace := trace w @ [Sent url ps]\<rparr>)"
  using assms by (auto simp: request_with_retries_def session_get_def accepted_def)

lemma page_items_page:
  assumes "is_page key (Response r) page" and "key \<noteq> []"
  shows "page_items (Some key) r = Inr (fst page)"
  using assms
  by (auto simp: is_page_def page_items_def dict_get_def py_iter_def
           split: option.splits json.splits)

lemma page_links:
  assumes "is_page key (Response r) page"
  shows "parse_link_header (link_header r) = Inr (fold add_link (snd page) Map.empty)"
  using assms parse_link_value[of "snd page"]
  by (auto simp: is_page_def split: option.splits json.splits)

lemma follow_links_pages:
  assumes "\<forall>i<length pages. is_page key (net w (pos w + i)) (pages ! i)"
    and "\<forall>i<length pages. (''next'' \<in> snd ` set (snd (pages ! i))) = (Suc i < length pages)"
    and "key \<noteq> []"
    and "(\<exists>u. links ''next'' = Some u \<and> u \<noteq> []) = (pages \<noteq> [])"
  shows "\<exists>w'. follow_links (Some key) links acc w = Some (Inr (acc @ concat (map fst pages)), w')
           \<and> pos w' = pos w + length pages \<and> net w' = net w"
  using assms
proof (induction pages arbitrary: links acc w)
  case Nil
  then show ?case
    by (subst follow_links.simps) (auto split: option.splits)
next
  case (Cons page rest)
  from Cons.prems(4) obtain u where u: "links ''next'' = Some u" "u \<noteq> []" by auto
  have pg: "is_page key (net w (pos w)) page" using Cons.prems(1) by force
  then obtain r where r: "net w (pos w) = Response r" "accepted r"
    by (auto simp: is_page_def split: outcome.splits)
  let ?w1 = "w\<lparr>pos := Suc (pos w), trace := trace w @ [Sent u []]\<rparr>"
  let ?links = "fold add_link (snd page) Map.empty"
  have req: "request_with_retries u [] 5 w = (Inr r, ?w1)"
    using request_accepted_first[OF r, of u "[]" 4] by (simp add: eval_nat_numeral)
  have items: "page_items (Some key) r = Inr (fst page)"
    using page_items_page pg r Cons.prems(3) by simp
  have links: "parse_link_header (link_header r) = Inr ?links"
    using page_links pg r by simp
  have unfold: "follow_links (Some key) links acc w = follow_links (Some key) ?links (acc @ fst page) ?w1"
    by (subst follow_links.simps) (simp add: u req items links)
  have plain: "list_all plain_segment (snd page)"
    using pg r by (auto simp: is_page_def split: option.splits json.splits)
  have nx: "(''next'' \<in> snd ` set (snd page)) = (rest \<noteq> [])"
    using Cons.prems(2) by force
  have l': "(\<exists>u. ?links ''next'' = Some u \<and> u \<noteq> []) = (rest \<noteq> [])"
  proof (cases "rest = []")
    case True
    then show ?thesis using nx fold_links_other[of "''next''" "snd page" Map.empty] by simp
  next
    case False
    then show ?thesis using nx fold_links_present[OF _ plain, of "''next''" Map.empty] by simp
  qed
  have p1: "\<forall>i<length rest. is_page key (net ?w1 (pos ?w1 + i)) (rest ! i)"
    using Cons.prems(1) by force
  have p2: "\<forall>i<length rest. (''next'' \<in> snd ` set (snd (rest ! i))) = (Suc i < length rest)"
    using Cons.prems(2) by force
  from Cons.IH[of ?w1 ?links "acc @ fst page", OF p1 p2 Cons.prems(3) l']
  obtain w' where "follow_links (Some key) ?links (acc @ fst page) ?w1 =
        Some (Inr ((acc @ fst page) @ concat (map fst rest)), w')"
      "pos w' = pos ?w1 + length rest" "net w' = net ?w1"
    by blast
  then show ?case using unfold by simp
qed

lemma fetch_all_rest_single_page:
  assumes "net w (pos w) = Response r" and "accepted r"
    and "page_items item_key r = Inr items" and "link r = None"
  shows "fetch_all_rest endpoint ps item_key w =
           Some (Inr items,
                 w\<lparr>pos := Suc (pos w),
                   trace := trace w @ [Sent (BASE_URL (shopify_store w) @ endpoint)
                                            (setdefault ps ''limit'' (JInt 250))]\<rparr>)"
proof -
  let ?url = "BASE_URL (shopify_store w) @ endpoint"
  let ?ps = "setdefault ps ''limit'' (JInt 250)"
  have req: "request_with_retries ?url ?ps 5 w
               = (Inr r, w\<lparr>pos := Suc (pos w), trace := trace w @ [Sent ?url ?ps]\<rparr>)"
    using request_accepted_first[OF assms(1,2), of ?url ?ps 4] by (simp add: eval_nat_numeral)
  have links: "parse_link_header (link_header r) = Inr Map.empty"
    using assms(4) by (simp add: link_header_def parse_link_header_def)
  show ?thesis
    by (simp add: fetch_all_rest_def Let_def req assms(3) links, subst follow_links.simps, simp)
qed

lemma fetch_all_rest_unreachable:
  assumes "\<forall>i<5. failed_attempt (net w (pos w + i))"
  shows "fetch_all_rest endpoint ps item_key w =
           Some (Inl RuntimeError,
                 after_failures 5 1 (BASE_URL (shopify_store w) @ endpoint)
                   (setdefault ps ''limit'' (JInt 250)) w)"
  using retry_loop_skip[OF assms, of 1 5 "BASE_URL (shopify_store w) @ endpoint"
          "setdefault ps ''limit'' (JInt 250)"]
  by (simp add: fetch_all_rest_def Let_def request_with_retries_def)

subsection \<open>Claims about the fetch client\<close>

lemma retry_loop_returns_accepted:
  "retry_loop n s url ps w = (Inr r, w') \<Longrightarrow> accepted r"
proof (induction n arbitrary: s w)
  case 0
  then show ?case by simp
next
  case (Suc n)
  then show ?case
    by (auto simp: session_get_def time_sleep_def accepted_def
             split: outcome.splits option.splits if_splits sum.splits)
qed

lemma retry_loop_exhausted:
  assumes "\<forall>i<n. failed_attempt (net w (pos w + i))" and "0 \<le> s"
  shows "retry_loop n s url ps w = (Inl RuntimeError, after_failures n s url ps w)"
  using retry_loop_skip[OF assms, of n url ps] by simp

lemma retry_loop_success:
  assumes "\<forall>i<m. failed_attempt (net w (pos w + i))" and "0 \<le> s" and "m < n"
    and "net w (pos w + m) = Response r" and "accepted r"
  shows "fst (retry_loop n s url ps w) = Inr r"
proof -
  obtain k where k: "n - m = Suc k" using assms(3) by (cases "n - m") auto
  have "retry_loop n s url ps w = retry_loop (Suc k) (s * 2 ^ m) url ps (after_failures m s url ps w)"
    using retry_loop_skip[OF assms(1,2), of n url ps] assms(3) k by simp
  moreover have "status_code r \<noteq> 429" using assms(5) by (auto simp: accepted_def)
  moreover have "\<not> (400 \<le> status_code r \<and> status_code r < 600)"
    using assms(5) by (simp add: accepted_def)
  ultimately show ?thesis
    using assms(4) by (simp add: after_failures_def session_get_def)
qed

text \<open>
  C3.  Pagination completeness: when the server answers the successive requests with N
  pages, every page but the last carrying a \<open>Link\<close> header with a \<open>rel="next"\<close> segment,
  \<open>fetch_all_rest\<close> returns the items of the N pages, concatenated in page order, after
  exactly N requests.
\<close>

theorem pagination_complete:
  assumes "pages \<noteq> []" and "key \<noteq> []"
    and "\<forall>i<length pages. is_page key (net w (pos w + i)) (pages ! i)"
    and "\<forall>i<length pages. (''next'' \<in> snd ` set (snd (pages ! i))) = (Suc i < length pages)"
  shows "\<exists>w'. fetch_all_rest endpoint ps (Some key) w
                 = Some (Inr (concat (map fst pages)), w')
              \<and> pos w' = pos w + length pages"
proof -
  obtain page rest where pages: "pages = page # rest" using assms(1) by (cases pages) auto
  have pg: "is_page key (net w (pos w)) page" using assms(3) pages by force
  then obtain r where r: "net w (pos w) = Response r" "accepted r"
    by (auto simp: is_page_def split: outcome.splits)
  let ?url = "BASE_URL (shopify_store w) @ endpoint"
  let ?ps = "setdefault ps ''limit'' (JInt 250)"
  let ?w1 = "w\<lparr>pos := Suc (pos w), trace := trace w @ [Sent ?url ?ps]\<rparr>"
  let ?links = "fold add_link (snd page) Map.empty"
  have req: "request_with_retries ?url ?ps 5 w = (Inr r, ?w1)"
    using request_accepted_first[OF r, of ?url ?ps 4] by (simp add: eval_nat_numeral)
  have items: "page_items (Some key) r = Inr (fst page)"
    using page_items_page pg r assms(2) by simp
  have links: "parse_link_header (link_header r) = Inr ?links"
    using page_links pg r by simp
  have unfold: "fetch_all_rest endpoint ps (Some key) w
                  = follow_links (Some key) ?links (fst page) ?w1"
    by (simp add: fetch_all_rest_def Let_def req items links)
  have plain: "list_all plain_segment (snd page)"
    using pg r by (auto simp: is_page_def split: option.splits json.splits)
  have nx: "(''next'' \<in> snd ` set (snd page)) = (rest \<noteq> [])"
    using assms(4) pages by force
  have l': "(\<exists>u. ?links ''next'' = Some u \<and> u \<noteq> []) = (rest \<noteq> [])"
  proof (cases "rest = []")
    case True
    then show ?thesis using nx fold_links_other[of "''next''" "snd page" Map.empty] by simp
  next
    case False
    then show ?thesis using nx fold_links_present[OF _ plain, of "''next''" Map.empty] by simp
  qed
  have p1: "\<forall>i<length rest. is_page key (net ?w1 (pos ?w1 + i)) (rest ! i)"
    using assms(3) pages by force
  have p2: "\<forall>i<length rest. (''next'' \<in> snd ` set (snd (rest ! i))) = (Suc i < length rest)"
    using assms(4) pages by force
  from follow_links_pages[of rest key ?w1 ?links "fst page", OF p1 p2 assms(2) l']
  obtain w' where "follow_links (Some key) ?links (fst page) ?w1 =
        Some (Inr (fst page @ concat (map fst rest)), w')" "pos w' = pos ?w1 + length rest"
    by blast
  then show ?thesis using unfold pages by simp
qed

theorem pagination_complete_witness:
  "\<exists>w'. fetch_all_rest ''products.json'' [(''limit'', JInt 250)] (Some ''products'')
           (world0
             [page_of ''products'' [JInt 1, JInt 2]
                (Some (''<https://shop/p?page_info=b>; rel='' @ [CHR 0x22] @ ''next'' @ [CHR 0x22])),
              page_of ''products'' [JInt 3]
                (Some (''<https://shop/p?page_info=a>; rel='' @ [CHR 0x22] @ ''previous'' @ [CHR 0x22]
                       @ '', <https://shop/p?page_info=c>; rel='' @ [CHR 0x22] @ ''next'' @ [CHR 0x22])),
              page_of ''products'' [JInt 4, JInt 5]
                (Some (''<https://shop/p?page_info=b>; rel='' @ [CHR 0x22] @ ''previous'' @ [CHR 0x22]))])
         = Some (Inr [JInt 1, JInt 2, JInt 3, JInt 4, JInt 5], w')
       \<and> pos w' = 3"
proof -
  let ?pages = "[([JInt 1, JInt 2], [(''https://shop/p?page_info=b'', ''next'')]),
                 ([JInt 3], [(''https://shop/p?page_info=a'', ''previous''),
                             (''https://shop/p?page_info=c'', ''next'')]),
                 ([JInt 4, JInt 5], [(''https://shop/p?page_info=b'', ''previous'')])]"
  let ?w = "world0
             [page_of ''products'' [JInt 1, JInt 2]
                (Some (''<https://shop/p?page_info=b>; rel='' @ [CHR 0x22] @ ''next'' @ [CHR 0x22])),
              page_of ''products'' [JInt 3]
                (Some (''<https://shop/p?page_info=a>; rel='' @ [CHR 0x22] @ ''previous'' @ [CHR 0x22]
                       @ '', <https://shop/p?page_info=c>; rel='' @ [CHR 0x22] @ ''next'' @ [CHR 0x22])),
              page_of ''products'' [JInt 4, JInt 5]
                (Some (''<https://shop/p?page_info=b>; rel='' @ [CHR 0x22] @ ''previous'' @ [CHR 0x22]))]"
  have a: "\<forall>i<length ?pages. is_page ''products'' (net ?w (pos ?w + i)) (?pages ! i)"
    by (simp add: All_less_Suc eval_nat_numeral world0_def script_def page_of_def is_page_def
          accepted_def link_header_def link_segment_def plain_segment_def)
  have b: "\<forall>i<length ?pages. (''next'' \<in> snd ` set (snd (?pages ! i))) = (Suc i < length ?pages)"
    by (simp add: All_less_Suc eval_nat_numeral)
  show ?thesis
    using pagination_complete[of ?pages "''products''" ?w "''products.json''"
            "[(''limit'', JInt 250)]", OF _ _ a b]
    by (simp add: world0_def eval_nat_numeral)
qed


lemma retry_loop_unanswered:
  "\<forall>i<n. unanswered (net w (pos w + i)) \<Longrightarrow> isl (fst (retry_loop n s url ps w))"
proof (induction n arbitrary: s w)
  case 0
  then show ?case by simp
next
  case (Suc n)
  have u0: "unanswered (net w (pos w))" using Suc.prems by force
  have rest: "\<And>t. \<forall>i<n. unanswered (net (w\<lparr>pos := Suc (pos w), trace := t\<rparr>)
                                   (pos (w\<lparr>pos := Suc (pos w), trace := t\<rparr>) + i))"
    using Suc.prems by (auto simp: less_Suc_eq_0_disj)
  show ?case
    using u0 Suc.IH[OF rest]
    by (auto simp: unanswered_def accepted_def session_get_def time_sleep_def
             split: outcome.splits option.splits if_splits sum.splits)
qed

text \<open>
  C5 (amended).  Retry exhaustion is fatal: when no attempt of the budget is answered by a
  response that \<open>raise_for_status\<close> passes, \<open>request_with_retries\<close> raises; when every
  attempt fails and is retried, what it raises is \<open>RuntimeError\<close>.  When an attempt
  within the budget is answered by a response that \<open>raise_for_status\<close> passes (a status
  outside 400 to 599, 2xx or not), after failed ones, that response is returned; a
  response that is returned is always such a one; and an exception of
  \<open>request_with_retries\<close> is the result of \<open>fetch_all_rest\<close>, on the first page and on
  every later one, whatever has been accumulated: no page is dropped silently.
\<close>

theorem retry_exhaustion_fatal:
  "((\<forall>i<max_retries. unanswered (net w (pos w + i)))
      \<longrightarrow> isl (fst (request_with_retries url ps max_retries w)))
   \<and> ((\<forall>i<max_retries. failed_attempt (net w (pos w + i)))
      \<longrightarrow> fst (request_with_retries url ps max_retries w) = Inl RuntimeError)
   \<and> ((\<forall>i<m. failed_attempt (net w (pos w + i))) \<and> m < max_retries
        \<and> net w (pos w + m) = Response r \<and> accepted r
      \<longrightarrow> fst (request_with_retries url ps max_retries w) = Inr r)
   \<and> (fst (request_with_retries url ps max_retries w) = Inr r' \<longrightarrow> accepted r')
   \<and> (fst (request_with_retries (BASE_URL (shopify_store w) @ endpoint) (setdefault qs ''limit'' (JInt 250)) 5 w) = Inl e
      \<longrightarrow> fetch_all_rest endpoint qs item_key w
            = Some (Inl e, snd (request_with_retries (BASE_URL (shopify_store w) @ endpoint)
                                  (setdefault qs ''limit'' (JInt 250)) 5 w)))
   \<and> (links ''next'' = Some u \<and> u \<noteq> [] \<and> fst (request_with_retries u [] 5 w) = Inl e
      \<longrightarrow> follow_links item_key links acc w = Some (Inl e, snd (request_with_retries u [] 5 w)))"
proof (intro conjI impI)
  assume "\<forall>i<max_retries. unanswered (net w (pos w + i))"
  then show "isl (fst (request_with_retries url ps max_retries w))"
    unfolding request_with_retries_def by (rule retry_loop_unanswered)
next
  assume "\<forall>i<max_retries. failed_attempt (net w (pos w + i))"
  then show "fst (request_with_retries url ps max_retries w) = Inl RuntimeError"
    using retry_loop_exhausted[of max_retries w 1 url ps] by (simp add: request_with_retries_def)
next
  assume "(\<forall>i<m. failed_attempt (net w (pos w + i))) \<and> m < max_retries
        \<and> net w (pos w + m) = Response r \<and> accepted r"
  then show "fst (request_with_retries url ps max_retries w) = Inr r"
    using retry_loop_success[of m w 1 max_retries r url ps] by (simp add: request_with_retries_def)
next
  assume "fst (request_with_retries url ps max_retries w) = Inr r'"
  then show "accepted r'"
    using retry_loop_returns_accepted[of max_retries 1 url ps w r']
    by (cases "retry_loop max_retries 1 url ps w") (simp add: request_with_retries_def)
next
  assume "fst (request_with_retries (BASE_URL (shopify_store w) @ endpoint) (setdefault qs ''limit'' (JInt 250)) 5 w) = Inl e"
  then show "fetch_all_rest endpoint qs item_key w
            = Some (Inl e, snd (request_with_retries (BASE_URL (shopify_store w) @ endpoint)
                                  (setdefault qs ''limit'' (JInt 250)) 5 w))"
    by (cases "request_with_retries (BASE_URL (shopify_store w) @ endpoint) (setdefault qs ''limit'' (JInt 250)) 5 w")
       (simp add: fetch_all_rest_def Let_def)
next
  assume "links ''next'' = Some u \<and> u \<noteq> [] \<and> fst (request_with_retries u [] 5 w) = Inl e"
  then show "follow_links item_key links acc w = Some (Inl e, snd (request_with_retries u [] 5 w))"
    by (cases "request_with_retries u [] 5 w") (subst follow_links.simps, simp)
qed

theorem retry_exhaustion_fatal_witness:
  "isl (fst (request_with_retries orders_url [] 5
          (world0 [status_only 500 None, status_only 429 (Some ''soon'')])))
   \<and> fst (request_with_retries orders_url [] 5
          (world0 [Transport_error, status_only 500 None, status_only 429 (Some ''2''),
                   status_only 503 None, Transport_error])) = Inl RuntimeError
   \<and> fst (request_with_retries orders_url [] 5
          (world0 [Transport_error, status_only 429 None, page_of ''orders'' [] None]))
       = Inr \<lparr>status_code = 200, retry_after = None, link = None,
               body = Some (JObj [(''orders'', JArr [])])\<rparr>
   \<and> (\<exists>w'. fetch_all_rest ''orders.json'' [] (Some ''orders'')
          (world0 (replicate 5 Transport_error)) = Some (Inl RuntimeError, w'))
   \<and> (\<exists>w'. follow_links (Some ''orders'') [''next'' \<mapsto> orders_url] [JInt 1]
          (world0 (replicate 5 (status_only 500 None))) = Some (Inl RuntimeError, w'))"
proof -
  let ?w0 = "world0 [status_only 500 None, status_only 429 (Some ''soon'')]"
  let ?w1 = "world0 [Transport_error, status_only 500 None, status_only 429 (Some ''2''),
                   status_only 503 None, Transport_error]"
  let ?w2 = "world0 [Transport_error, status_only 429 None, page_of ''orders'' [] None]"
  let ?r = "\<lparr>status_code = 200, retry_after = None, link = None,
               body = Some (JObj [(''orders'', JArr [])])\<rparr>"
  let ?w3 = "world0 (replicate 5 Transport_error)"
  let ?w4 = "world0 (replicate 5 (status_only 500 None))"
  have two: "py_int ''2'' = Some 2" by code_simp
  have f0: "\<forall>i<5. unanswered (net ?w0 (pos ?w0 + i))"
    by (auto simp: world0_def script_def status_only_def unanswered_def accepted_def
             less_Suc_eq_0_disj)
  have f1: "\<forall>i<5. failed_attempt (net ?w1 (pos ?w1 + i))"
    by (simp add: All_less_Suc eval_nat_numeral world0_def script_def status_only_def
          failed_attempt_def two)
  have f2: "(\<forall>i<2. failed_attempt (net ?w2 (pos ?w2 + i))) \<and> (2::nat) < 5
             \<and> net ?w2 (pos ?w2 + 2) = Response ?r \<and> accepted ?r"
    by (simp add: All_less_Suc eval_nat_numeral world0_def script_def status_only_def
          failed_attempt_def page_of_def accepted_def)
  have f3: "\<forall>i<5. failed_attempt (net ?w3 (pos ?w3 + i))"
    by (simp add: world0_def script_def failed_attempt_def)
  have f4: "\<forall>i<5. failed_attempt (net ?w4 (pos ?w4 + i))"
    by (simp add: world0_def script_def status_only_def failed_attempt_def)
  have z: "isl (fst (request_with_retries orders_url [] 5 ?w0))"
    by (rule retry_exhaustion_fatal[where max_retries = 5 and w = ?w0 and url = orders_url
              and ps = "[]", THEN conjunct1, THEN mp, OF f0])
  have a: "fst (request_with_retries orders_url [] 5 ?w1) = Inl RuntimeError"
    by (rule retry_exhaustion_fatal[where max_retries = 5 and w = ?w1 and url = orders_url
              and ps = "[]", THEN conjunct2, THEN conjunct1, THEN mp, OF f1])
  have b: "fst (request_with_retries orders_url [] 5 ?w2) = Inr ?r"
    by (rule retry_exhaustion_fatal[where max_retries = 5 and w = ?w2 and url = orders_url
              and ps = "[]" and m = 2 and r = ?r,
              THEN conjunct2, THEN conjunct2, THEN conjunct1, THEN mp, OF f2])
  have c0: "fst (request_with_retries (BASE_URL (shopify_store ?w3) @ ''orders.json'')
                  (setdefault [] ''limit'' (JInt 250)) 5 ?w3) = Inl RuntimeError"
    by (rule retry_exhaustion_fatal[where max_retries = 5 and w = ?w3,
              THEN conjunct2, THEN conjunct1, THEN mp, OF f3])
  have c: "\<exists>w'. fetch_all_rest ''orders.json'' [] (Some ''orders'') ?w3
               = Some (Inl RuntimeError, w')"
    using retry_exhaustion_fatal[where w = ?w3 and endpoint = "''orders.json''"
            and qs = "[]" and e = RuntimeError and item_key = "Some ''orders''",
            THEN conjunct2, THEN conjunct2, THEN conjunct2, THEN conjunct2, THEN conjunct1,
            THEN mp, OF c0]
    by (rule exI)
  have ne: "orders_url \<noteq> []" by (simp add: orders_url_def)
  have d0: "[''next'' \<mapsto> orders_url] ''next'' = Some orders_url
            \<and> orders_url \<noteq> []
            \<and> fst (request_with_retries orders_url [] 5 ?w4) = Inl RuntimeError"
    using retry_exhaustion_fatal[where max_retries = 5 and w = ?w4 and url = orders_url
            and ps = "[]", THEN conjunct2, THEN conjunct1, THEN mp, OF f4] ne
    by simp
  have d: "\<exists>w'. follow_links (Some ''orders'') [''next'' \<mapsto> orders_url] [JInt 1] ?w4
               = Some (Inl RuntimeError, w')"
    using retry_exhaustion_fatal[where w = ?w4 and e = RuntimeError
            and links = "[''next'' \<mapsto> orders_url]" and u = orders_url
            and item_key = "Some ''orders''" and acc = "[JInt 1]",
            THEN conjunct2, THEN conjunct2, THEN conjunct2, THEN conjunct2, THEN conjunct2,
            THEN mp, OF d0]
    by (rule exI)
  show ?thesis using z a b c d by (intro conjI)
qed

theorem retry_exhaustion_fatal_counterexample:
  "request_with_retries orders_url [] 5
     (world0 [status_only 500 None, status_only 500 None, status_only 500 None,
              status_only 500 None, Response not_modified])
   = (Inr not_modified,
      (world0 [status_only 500 None, status_only 500 None, status_only 500 None,
               status_only 500 None, Response not_modified])
        \<lparr>pos := 5,
         trace := [Sent orders_url [], Slept 1, Sent orders_url [], Slept 2,
                   Sent orders_url [], Slept 4, Sent orders_url [], Slept 8,
                   Sent orders_url []]\<rparr>)
   \<and> \<not> (200 \<le> status_code not_modified \<and> status_code not_modified < 300)"
  by (simp add: request_with_retries_def world0_def script_def status_only_def not_modified_def
        session_get_def time_sleep_def eval_nat_numeral)


text \<open>
  C10.  A 429 response whose \<open>Retry-After\<close> is not a number that \<open>int\<close> reads (an HTTP
  date, say) makes \<open>request_with_retries\<close> raise \<open>ValueError\<close> at once: the request is
  the last event, no sleep follows it, and the attempts the budget still has are not made.
\<close>

theorem retry_after_unreadable_raises:
  assumes "\<forall>i<m. failed_attempt (net w (pos w + i))" and "m < max_retries"
    and "net w (pos w + m) = Response r" and "status_code r = 429"
    and "retry_after r = Some h" and "py_int h = None"
  shows "request_with_retries url ps max_retries w =
           (Inl ValueError,
            w\<lparr>pos := pos w + m + 1,
              trace := trace w @ failed_events m 1 url ps w @ [Sent url ps]\<rparr>)"
proof -
  obtain k where k: "max_retries - m = Suc k" using assms(2) by (cases "max_retries - m") auto
  have "request_with_retries url ps max_retries w
          = retry_loop (Suc k) (2 ^ m) url ps (after_failures m 1 url ps w)"
    using retry_loop_skip[OF assms(1), of 1 max_retries url ps] assms(2) k
    by (simp add: request_with_retries_def)
  then show ?thesis
    using assms(3-6) by (simp add: after_failures_def session_get_def)
qed

theorem retry_after_unreadable_raises_witness:
  "request_with_retries ''u'' [] 5
     (world0 [Transport_error, status_only 429 (Some ''Wed, 21 Oct 2015 07:28:00 GMT'')])
   = (Inl ValueError,
      (world0 [Transport_error, status_only 429 (Some ''Wed, 21 Oct 2015 07:28:00 GMT'')])
        \<lparr>pos := 2, trace := [Sent ''u'' [], Slept 1, Sent ''u'' []]\<rparr>)"
proof -
  let ?w = "world0 [Transport_error, status_only 429 (Some ''Wed, 21 Oct 2015 07:28:00 GMT'')]"
  let ?r = "\<lparr>status_code = 429, retry_after = Some ''Wed, 21 Oct 2015 07:28:00 GMT'',
              link = None, body = None\<rparr>"
  have d: "py_int ''Wed, 21 Oct 2015 07:28:00 GMT'' = None" by code_simp
  have f: "\<forall>i<1. failed_attempt (net ?w (pos ?w + i))"
    by (simp add: world0_def script_def failed_attempt_def)
  have n: "net ?w (pos ?w + 1) = Response ?r"
    by (simp add: world0_def script_def status_only_def)
  show ?thesis
    using retry_after_unreadable_raises[OF f _ n _ _ d, of 5 "''u''" "[]"]
    by (simp add: failed_events_def world0_def script_def retry_after_secs_def)
qed

section \<open>Properties of the store step\<close>

subsection \<open>Batches of writes\<close>

lemma upsert_same: "upsert k r (upsert k r' t) = upsert k r t"
  by (induction t) auto

lemma upsert_commute: "k \<noteq> k' \<Longrightarrow> upsert k r (upsert k' r' t) = upsert k' r' (upsert k r t)"
  by (induction t) auto

lemma apply_writes_Nil: "apply_writes [] t = t"
  by (simp add: apply_writes_def)

lemma apply_writes_Cons: "apply_writes ((k, r) # ws) t = apply_writes ws (upsert k r t)"
  by (simp add: apply_writes_def)

lemma apply_writes_append: "apply_writes (ws @ ws') t = apply_writes ws' (apply_writes ws t)"
  by (simp add: apply_writes_def)

lemma apply_writes_absorb:
  "k \<in> fst ` set ws \<Longrightarrow> apply_writes ws (upsert k r t) = apply_writes ws t"
proof (induction ws arbitrary: t)
  case Nil
  then show ?case by simp
next
  case (Cons w ws)
  obtain k' r' where w: "w = (k', r')" by (cases w)
  show ?case
  proof (cases "k' = k")
    case True
    then show ?thesis by (simp add: w apply_writes_Cons upsert_same)
  next
    case False
    then have "k \<in> fst ` set ws" using Cons.prems w by auto
    then show ?thesis
      using Cons.IH[of "upsert k' r' t"] False
      by (simp add: w apply_writes_Cons upsert_commute[of k' k])
  qed
qed

lemma apply_writes_past:
  "k \<notin> fst ` set ws \<Longrightarrow> apply_writes ws (upsert k r t) = upsert k r (apply_writes ws t)"
proof (induction ws arbitrary: t)
  case Nil
  then show ?case by (simp add: apply_writes_Nil)
next
  case (Cons w ws)
  obtain k' r' where w: "w = (k', r')" by (cases w)
  have ne: "k' \<noteq> k" and notin: "k \<notin> fst ` set ws" using Cons.prems w by auto
  show ?case
    using Cons.IH[OF notin, of "upsert k' r' t"] ne
    by (simp add: w apply_writes_Cons upsert_commute[of k' k])
qed

lemma apply_writes_twice: "apply_writes ws (apply_writes ws t) = apply_writes ws t"
proof (induction ws arbitrary: t)
  case Nil
  then show ?case by (simp add: apply_writes_Nil)
next
  case (Cons w ws)
  obtain k r where w: "w = (k, r)" by (cases w)
  show ?case
  proof (cases "k \<in> fst ` set ws")
    case True
    then show ?thesis
      using Cons.IH[of "upsert k r t"] by (simp add: w apply_writes_Cons apply_writes_absorb)
  next
    case False
    have "apply_writes ws (upsert k r (apply_writes ws (upsert k r t)))
            = apply_writes ws (upsert k r (upsert k r (apply_writes ws t)))"
      by (simp add: apply_writes_past[OF False])
    also have "\<dots> = apply_writes ws (apply_writes ws (upsert k r t))"
      by (simp add: upsert_same apply_writes_past[OF False])
    also have "\<dots> = apply_writes ws (upsert k r t)" by (rule Cons.IH)
    finally show ?thesis by (simp add: w apply_writes_Cons)
  qed
qed

subsection \<open>What a pass writes does not depend on the tables\<close>

lemma bind_all_head: "bind_all (x # xs) = Inr vs \<Longrightarrow> x = Inr (vs ! 0)"
  by (auto split: sum.splits)

lemma insert_or_replace_fixed:
  assumes "key \<noteq> SNull"
  shows "(\<exists>e. \<forall>t. insert_or_replace key r t = Inl e)
         \<or> (\<exists>k. \<forall>t. insert_or_replace key r t = Inr (upsert k r t))"
  using assms by (cases key) (auto simp: insert_or_replace_def split: option.splits)

lemma variant_step_fixed:
  assumes "\<not> null_id v"
  shows "(\<exists>e. \<forall>t. variant_step pid v t = Inl e)
         \<or> (\<exists>k r. \<forall>t. variant_step pid v t = Inr (upsert k r t))"
proof (cases v)
  case (JObj kvs)
  show ?thesis
  proof (cases "map_of kvs ''id''")
    case None
    then show ?thesis by (simp add: variant_step_def JObj)
  next
    case (Some vid)
    let ?binds = "[bind_param vid, bind_param pid, bind_get kvs ''title'',
                       bind_get kvs ''sku'', bind_get kvs ''price'', bind_get kvs ''compare_at_price'',
                       bind_get kvs ''position'', bind_get kvs ''option1'', bind_get kvs ''option2'',
                       bind_get kvs ''option3'', bind_get kvs ''created_at'', bind_get kvs ''updated_at'']"
    show ?thesis
    proof (cases "bind_all ?binds")
      case (Inl e)
      then show ?thesis by (simp add: variant_step_def JObj Some)
    next
      case (Inr vs)
      have "bind_param vid = Inr (vs ! 0)" using bind_all_head[OF Inr] .
      then have key: "vs ! 0 \<noteq> SNull" using assms by (auto simp: null_id_def JObj Some)
      show ?thesis
      proof (cases "not_null (vs ! 1)")
        case (Inl e)
        then show ?thesis using Inr by (simp add: variant_step_def JObj Some)
      next
        case (Inr product_id)
        let ?row = "\<lparr>v_product_id = product_id, v_title = vs ! 2, v_sku = vs ! 3,
                            v_price = vs ! 4, v_compare_at_price = vs ! 5, v_position = vs ! 6,
                            v_option1 = vs ! 7, v_option2 = vs ! 8, v_option3 = vs ! 9,
                            v_created_at = vs ! 10, v_updated_at = vs ! 11, v_raw_json = v\<rparr>"
        have "\<And>t. variant_step pid v t = insert_or_replace (vs ! 0) ?row t"
          using \<open>bind_all ?binds = Inr vs\<close> Inr by (simp add: variant_step_def JObj Some)
        then show ?thesis using insert_or_replace_fixed[OF key, of ?row] by auto
      qed
    qed
  qed
qed (simp_all add: variant_step_def)

lemma variants_loop_fixed:
  assumes "list_all (\<lambda>v. \<not> null_id v) vs"
  shows "(\<exists>e. \<forall>t. variants_loop pid vs t = Inl e)
         \<or> (\<exists>ws. \<forall>t. variants_loop pid vs t = Inr (apply_writes ws t))"
  using assms
proof (induction vs)
  case Nil
  have "\<forall>t. variants_loop pid [] t = Inr (apply_writes [] t)" by (simp add: apply_writes_Nil)
  then show ?case by blast
next
  case (Cons v vs)
  from Cons.prems have nv: "\<not> null_id v" and rest: "list_all (\<lambda>v. \<not> null_id v) vs" by auto
  from variant_step_fixed[OF nv, of pid] show ?case
  proof
    assume "\<exists>e. \<forall>t. variant_step pid v t = Inl e"
    then show ?thesis by auto
  next
    assume "\<exists>k r. \<forall>t. variant_step pid v t = Inr (upsert k r t)"
    then obtain k r where step: "\<And>t. variant_step pid v t = Inr (upsert k r t)" by auto
    from Cons.IH[OF rest] show ?thesis
    proof
      assume "\<exists>e. \<forall>t. variants_loop pid vs t = Inl e"
      then show ?thesis using step by auto
    next
      assume "\<exists>ws. \<forall>t. variants_loop pid vs t = Inr (apply_writes ws t)"
      then obtain ws where "\<And>t. variants_loop pid vs t = Inr (apply_writes ws t)" by auto
      then have "\<forall>t. variants_loop pid (v # vs) t = Inr (apply_writes ((k, r) # ws) t)"
        using step by (simp add: apply_writes_Cons)
      then show ?thesis by blast
    qed
  qed
qed

lemma children_iter:
  "py_iter (case map_of kvs key of None \<Rightarrow> JArr [] | Some j \<Rightarrow> j) = Inr xs
     \<Longrightarrow> children key (JObj kvs) = xs"
  by (auto simp: children_def py_iter_def split: option.splits)

lemma product_step_fixed:
  assumes "\<not> null_id p" and "list_all (\<lambda>v. \<not> null_id v) (children ''variants'' p)"
  shows "(\<exists>e. \<forall>acc. product_step p acc = Inl e)
         \<or> (\<exists>k r ws u. \<forall>pt vt mx.
               product_step p (pt, vt, mx) = Inr (upsert k r pt, apply_writes ws vt, bump_max u mx))"
proof (cases p)
  case (JObj kvs)
  show ?thesis
  proof (cases "map_of kvs ''id''")
    case None
    then show ?thesis by (auto simp: product_step_def JObj)
  next
    case (Some pid)
    let ?binds = "[bind_param pid, bind_get kvs ''title'', bind_get kvs ''vendor'',
                        bind_get kvs ''product_type'', bind_get kvs ''created_at'',
                        bind_get kvs ''updated_at'']"
    show ?thesis
    proof (cases "bind_all ?binds")
      case (Inl e)
      then show ?thesis by (auto simp: product_step_def JObj Some)
    next
      case (Inr vs)
      have "bind_param pid = Inr (vs ! 0)" using bind_all_head[OF Inr] .
      then have key: "vs ! 0 \<noteq> SNull" using assms(1) by (auto simp: null_id_def JObj Some)
      let ?row = "\<lparr>p_title = vs ! 1, p_vendor = vs ! 2, p_product_type = vs ! 3,
                              p_created_at = vs ! 4, p_updated_at = vs ! 5, p_raw_json = p\<rparr>"
      from insert_or_replace_fixed[OF key, of ?row] show ?thesis
      proof
        assume "\<exists>e. \<forall>t. insert_or_replace (vs ! 0) ?row t = Inl e"
        then show ?thesis using Inr by (auto simp: product_step_def JObj Some)
      next
        assume "\<exists>k. \<forall>t. insert_or_replace (vs ! 0) ?row t = Inr (upsert k ?row t)"
        then obtain k where ins: "\<And>t. insert_or_replace (vs ! 0) ?row t = Inr (upsert k ?row t)"
          by auto
        show ?thesis
        proof (cases "py_iter (case map_of kvs ''variants'' of None \<Rightarrow> JArr [] | Some j \<Rightarrow> j)")
          case (Inl e)
          then show ?thesis using Inr ins by (auto simp: product_step_def JObj Some)
        next
          case it: (Inr variants)
          have "list_all (\<lambda>v. \<not> null_id v) variants"
            using assms(2) children_iter[OF it] JObj by simp
          from variants_loop_fixed[OF this, of pid] show ?thesis
          proof
            assume "\<exists>e. \<forall>t. variants_loop pid variants t = Inl e"
            then show ?thesis using Inr ins it by (auto simp: product_step_def JObj Some)
          next
            assume "\<exists>ws. \<forall>t. variants_loop pid variants t = Inr (apply_writes ws t)"
            then obtain ws where "\<And>t. variants_loop pid variants t = Inr (apply_writes ws t)"
              by auto
            then have "\<forall>pt vt mx. product_step p (pt, vt, mx)
                     = Inr (upsert k ?row pt, apply_writes ws vt, bump_max (map_of kvs ''updated_at'') mx)"
              using Inr ins it by (simp add: product_step_def JObj Some)
            then show ?thesis by blast
          qed
        qed
      qed
    qed
  qed
qed (auto simp: product_step_def)

lemma products_loop_fixed:
  assumes "list_all (\<lambda>p. \<not> null_id p \<and> list_all (\<lambda>v. \<not> null_id v) (children ''variants'' p)) items"
  shows "(\<exists>e. \<forall>acc. products_loop items acc = Inl e)
         \<or> (\<exists>pw vw us. \<forall>pt vt mx.
               products_loop items (pt, vt, mx)
                 = Inr (apply_writes pw pt, apply_writes vw vt, fold bump_max us mx))"
  using assms
proof (induction items)
  case Nil
  have "\<forall>pt vt mx. products_loop [] (pt, vt, mx)
          = Inr (apply_writes [] pt, apply_writes [] vt, fold bump_max [] mx)"
    by (simp add: apply_writes_Nil)
  then show ?case by blast
next
  case (Cons p items)
  from Cons.prems have a: "\<not> null_id p" "list_all (\<lambda>v. \<not> null_id v) (children ''variants'' p)"
    and rest: "list_all (\<lambda>p. \<not> null_id p \<and> list_all (\<lambda>v. \<not> null_id v) (children ''variants'' p)) items"
    by auto
  from product_step_fixed[OF a] show ?case
  proof
    assume "\<exists>e. \<forall>acc. product_step p acc = Inl e"
    then show ?thesis by auto
  next
    assume "\<exists>k r ws u. \<forall>pt vt mx.
               product_step p (pt, vt, mx) = Inr (upsert k r pt, apply_writes ws vt, bump_max u mx)"
    then obtain k r ws u where step: "\<And>pt vt mx.
               product_step p (pt, vt, mx) = Inr (upsert k r pt, apply_writes ws vt, bump_max u mx)"
      by auto
    from Cons.IH[OF rest] show ?thesis
    proof
      assume "\<exists>e. \<forall>acc. products_loop items acc = Inl e"
      then obtain e where "\<And>acc. products_loop items acc = Inl e" by auto
      then have "\<forall>acc. products_loop (p # items) acc = Inl e"
        using step by (auto split: sum.splits)
      then show ?thesis by blast
    next
      assume "\<exists>pw vw us. \<forall>pt vt mx. products_loop items (pt, vt, mx)
                 = Inr (apply_writes pw pt, apply_writes vw vt, fold bump_max us mx)"
      then obtain pw vw us where "\<And>pt vt mx. products_loop items (pt, vt, mx)
                 = Inr (apply_writes pw pt, apply_writes vw vt, fold bump_max us mx)"
        by auto
      then have "\<forall>pt vt mx. products_loop (p # items) (pt, vt, mx)
                 = Inr (apply_writes ((k, r) # pw) pt, apply_writes (ws @ vw) vt, fold bump_max (u # us) mx)"
        using step by (simp add: apply_writes_Cons apply_writes_append)
      then show ?thesis by blast
    qed
  qed
qed

lemma store_products_twice:
  assumes "list_all (\<lambda>p. \<not> null_id p \<and> list_all (\<lambda>v. \<not> null_id v) (children ''variants'' p)) items"
  shows "after_store store_products items (after_store store_products items d)
           = after_store store_products items d"
  using products_loop_fixed[OF assms]
proof
  assume "\<exists>e. \<forall>acc. products_loop items acc = Inl e"
  then show ?thesis by (auto simp: after_store_def store_products_def)
next
  assume "\<exists>pw vw us. \<forall>pt vt mx. products_loop items (pt, vt, mx)
                 = Inr (apply_writes pw pt, apply_writes vw vt, fold bump_max us mx)"
  then obtain pw vw us where l: "\<And>pt vt mx. products_loop items (pt, vt, mx)
                 = Inr (apply_writes pw pt, apply_writes vw vt, fold bump_max us mx)"
    by auto
  show ?thesis
    by (cases "fold bump_max us None")
       (simp_all add: after_store_def store_products_def l set_watermark_def db_set_metadata_def
          apply_writes_twice)
qed

lemma customer_step_fixed:
  assumes "\<not> null_id c"
  shows "(\<exists>e. \<forall>acc. customer_step c acc = Inl e)
         \<or> (\<exists>k r u. \<forall>ct mx. customer_step c (ct, mx) = Inr (upsert k r ct, bump_max u mx))"
proof (cases c)
  case (JObj kvs)
  show ?thesis
  proof (cases "map_of kvs ''id''")
    case None
    then show ?thesis by (auto simp: customer_step_def JObj)
  next
    case (Some cid)
    let ?binds = "[bind_param cid, bind_get kvs ''first_name'', bind_get kvs ''last_name'',
                        bind_get kvs ''email'', bind_get kvs ''phone'', bind_get kvs ''created_at'',
                        bind_get kvs ''updated_at'']"
    show ?thesis
    proof (cases "bind_all ?binds")
      case (Inl e)
      then show ?thesis by (auto simp: customer_step_def JObj Some)
    next
      case (Inr vs)
      have "bind_param cid = Inr (vs ! 0)" using bind_all_head[OF Inr] .
      then have key: "vs ! 0 \<noteq> SNull" using assms(1) by (auto simp: null_id_def JObj Some)
      let ?row = "\<lparr>c_first_name = vs ! 1, c_last_name = vs ! 2, c_email = vs ! 3,
                              c_phone = vs ! 4, c_created_at = vs ! 5, c_updated_at = vs ! 6,
                              c_raw_json = c\<rparr>"
      from insert_or_replace_fixed[OF key, of ?row] show ?thesis
      proof
        assume "\<exists>e. \<forall>t. insert_or_replace (vs ! 0) ?row t = Inl e"
        then show ?thesis using Inr by (auto simp: customer_step_def JObj Some)
      next
        assume "\<exists>k. \<forall>t. insert_or_replace (vs ! 0) ?row t = Inr (upsert k ?row t)"
        then obtain k where "\<And>t. insert_or_replace (vs ! 0) ?row t = Inr (upsert k ?row t)"
          by auto
        then have "\<forall>ct mx. customer_step c (ct, mx)
                     = Inr (upsert k ?row ct, bump_max (map_of kvs ''updated_at'') mx)"
          using Inr by (simp add: customer_step_def JObj Some)
        then show ?thesis by blast
      qed
    qed
  qed
qed (auto simp: customer_step_def)

lemma customers_loop_fixed:
  assumes "list_all (\<lambda>c. \<not> null_id c) items"
  shows "(\<exists>e. \<forall>acc. customers_loop items acc = Inl e)
         \<or> (\<exists>cw us. \<forall>ct mx.
               customers_loop items (ct, mx) = Inr (apply_writes cw ct, fold bump_max us mx))"
  using assms
proof (induction items)
  case Nil
  have "\<forall>ct mx. customers_loop [] (ct, mx) = Inr (apply_writes [] ct, fold bump_max [] mx)"
    by (simp add: apply_writes_Nil)
  then show ?case by blast
next
  case (Cons c items)
  from Cons.prems have a: "\<not> null_id c" and rest: "list_all (\<lambda>c. \<not> null_id c) items" by auto
  from customer_step_fixed[OF a] show ?case
  proof
    assume "\<exists>e. \<forall>acc. customer_step c acc = Inl e"
    then show ?thesis by auto
  next
    assume "\<exists>k r u. \<forall>ct mx. customer_step c (ct, mx) = Inr (upsert k r ct, bump_max u mx)"
    then obtain k r u where step:
      "\<And>ct mx. customer_step c (ct, mx) = Inr (upsert k r ct, bump_max u mx)"
      by auto
    from Cons.IH[OF rest] show ?thesis
    proof
      assume "\<exists>e. \<forall>acc. customers_loop items acc = Inl e"
      then obtain e where "\<And>acc. customers_loop items acc = Inl e" by auto
      then have "\<forall>acc. customers_loop (c # items) acc = Inl e"
        using step by (auto split: sum.splits)
      then show ?thesis by blast
    next
      assume "\<exists>cw us. \<forall>ct mx. customers_loop items (ct, mx)
                 = Inr (apply_writes cw ct, fold bump_max us mx)"
      then obtain cw us where "\<And>ct mx. customers_loop items (ct, mx)
                 = Inr (apply_writes cw ct, fold bump_max us mx)"
        by auto
      then have "\<forall>ct mx. customers_loop (c # items) (ct, mx)
                 = Inr (apply_writes ((k, r) # cw) ct, fold bump_max (u # us) mx)"
        using step by (simp add: apply_writes_Cons)
      then show ?thesis by blast
    qed
  qed
qed

lemma store_customers_twice:
  assumes "list_all (\<lambda>c. \<not> null_id c) items"
  shows "after_store store_customers items (after_store store_customers items d)
           = after_store store_customers items d"
  using customers_loop_fixed[OF assms]
proof
  assume "\<exists>e. \<forall>acc. customers_loop items acc = Inl e"
  then show ?thesis by (auto simp: after_store_def store_customers_def)
next
  assume "\<exists>cw us. \<forall>ct mx. customers_loop items (ct, mx)
                 = Inr (apply_writes cw ct, fold bump_max us mx)"
  then obtain cw us where l: "\<And>ct mx. customers_loop items (ct, mx)
                 = Inr (apply_writes cw ct, fold bump_max us mx)"
    by auto
  show ?thesis
    by (cases "fold bump_max us None")
       (simp_all add: after_store_def store_customers_def l set_watermark_def db_set_metadata_def
          apply_writes_twice)
qed

lemma line_item_step_fixed:
  assumes "\<not> null_or_missing_id li"
  shows "(\<exists>e. \<forall>t. line_item_step oid li t = Inl e)
         \<or> (\<exists>k r. \<forall>t. line_item_step oid li t = Inr (upsert k r t))"
proof (cases li)
  case (JObj kvs)
  let ?binds = "[bind_get kvs ''id'', bind_param oid, bind_get kvs ''product_id'',
                   bind_get kvs ''variant_id'', bind_get kvs ''title'',
                   (case map_of kvs ''quantity'' of None \<Rightarrow> Inr (SInt 0) | Some q \<Rightarrow> bind_param q),
                   bind_get kvs ''sku'']"
  show ?thesis
  proof (cases "bind_all ?binds")
    case (Inl e)
    then show ?thesis by (simp add: line_item_step_def JObj)
  next
    case (Inr vs)
    have "bind_get kvs ''id'' = Inr (vs ! 0)" using bind_all_head[OF Inr] .
    then have key: "vs ! 0 \<noteq> SNull" using assms by (auto simp: null_or_missing_id_def JObj)
    show ?thesis
    proof (cases "not_null (vs ! 1)")
      case (Inl e)
      then show ?thesis using Inr by (simp add: line_item_step_def JObj)
    next
      case (Inr order_id)
      let ?row = "\<lparr>li_order_id = order_id, li_product_id = vs ! 2, li_variant_id = vs ! 3,
                       li_title = vs ! 4, li_quantity = vs ! 5,
                       li_price = bind_float (try_float (map_of kvs ''price'')),
                       li_sku = vs ! 6, li_raw_json = li\<rparr>"
      have "\<And>t. line_item_step oid li t = insert_or_replace (vs ! 0) ?row t"
        using \<open>bind_all ?binds = Inr vs\<close> Inr by (simp add: line_item_step_def JObj Let_def)
      then show ?thesis using insert_or_replace_fixed[OF key, of ?row] by auto
    qed
  qed
qed (simp_all add: line_item_step_def)

lemma line_items_loop_fixed:
  assumes "list_all (\<lambda>li. \<not> null_or_missing_id li) lis"
  shows "(\<exists>e. \<forall>t. line_items_loop oid lis t = Inl e)
         \<or> (\<exists>ws. \<forall>t. line_items_loop oid lis t = Inr (apply_writes ws t))"
  using assms
proof (induction lis)
  case Nil
  have "\<forall>t. line_items_loop oid [] t = Inr (apply_writes [] t)" by (simp add: apply_writes_Nil)
  then show ?case by blast
next
  case (Cons li lis)
  from Cons.prems have nv: "\<not> null_or_missing_id li"
    and rest: "list_all (\<lambda>li. \<not> null_or_missing_id li) lis" by auto
  from line_item_step_fixed[OF nv, of oid] show ?case
  proof
    assume "\<exists>e. \<forall>t. line_item_step oid li t = Inl e"
    then show ?thesis by auto
  next
    assume "\<exists>k r. \<forall>t. line_item_step oid li t = Inr (upsert k r t)"
    then obtain k r where step: "\<And>t. line_item_step oid li t = Inr (upsert k r t)" by auto
    from Cons.IH[OF rest] show ?thesis
    proof
      assume "\<exists>e. \<forall>t. line_items_loop oid lis t = Inl e"
      then show ?thesis using step by auto
    next
      assume "\<exists>ws. \<forall>t. line_items_loop oid lis t = Inr (apply_writes ws t)"
      then obtain ws where "\<And>t. line_items_loop oid lis t = Inr (apply_writes ws t)" by auto
      then have "\<forall>t. line_items_loop oid (li # lis) t = Inr (apply_writes ((k, r) # ws) t)"
        using step by (simp add: apply_writes_Cons)
      then show ?thesis by blast
    qed
  qed
qed

lemma order_step_fixed:
  assumes "\<not> null_id ord"
    and "list_all (\<lambda>li. \<not> null_or_missing_id li) (children ''line_items'' ord)"
  shows "(\<exists>e. \<forall>acc. order_step ord acc = Inl e)
         \<or> (\<exists>k r ws u. \<forall>ot lt mx.
               order_step ord (ot, lt, mx) = Inr (upsert k r ot, apply_writes ws lt, bump_max u mx))"
proof (cases ord)
  case (JObj kvs)
  show ?thesis
  proof (cases "map_of kvs ''id''")
    case None
    then show ?thesis by (auto simp: order_step_def JObj)
  next
    case (Some oid)
    show ?thesis
    proof (cases "customer_id_of kvs")
      case (Inl e)
      then show ?thesis by (auto simp: order_step_def JObj Some)
    next
      case cust: (Inr customer_id)
      let ?binds = "[bind_param oid, bind_get kvs ''order_number'',
                              bind_param customer_id, bind_get kvs ''email'', bind_get kvs ''currency'',
                              bind_get kvs ''created_at'', bind_get kvs ''updated_at'',
                              bind_get kvs ''financial_status'', bind_get kvs ''fulfillment_status'']"
      show ?thesis
      proof (cases "bind_all ?binds")
        case (Inl e)
        then show ?thesis using cust by (auto simp: order_step_def JObj Some)
      next
        case (Inr vs)
        have "bind_param oid = Inr (vs ! 0)" using bind_all_head[OF Inr] .
        then have key: "vs ! 0 \<noteq> SNull" using assms(1) by (auto simp: null_id_def JObj Some)
        let ?row = "\<lparr>o_order_number = vs ! 1, o_customer_id = vs ! 2, o_email = vs ! 3,
                                   o_total_price = bind_float (try_float (map_of kvs ''total_price'')),
                                   o_currency = vs ! 4,
                                   o_created_at = vs ! 5, o_updated_at = vs ! 6,
                                   o_financial_status = vs ! 7, o_fulfillment_status = vs ! 8,
                                   o_raw_json = ord\<rparr>"
        from insert_or_replace_fixed[OF key, of ?row] show ?thesis
        proof
          assume "\<exists>e. \<forall>t. insert_or_replace (vs ! 0) ?row t = Inl e"
          then show ?thesis using Inr cust by (auto simp: order_step_def JObj Some Let_def)
        next
          assume "\<exists>k. \<forall>t. insert_or_replace (vs ! 0) ?row t = Inr (upsert k ?row t)"
          then obtain k where ins: "\<And>t. insert_or_replace (vs ! 0) ?row t = Inr (upsert k ?row t)"
            by auto
          show ?thesis
          proof (cases "py_iter (case map_of kvs ''line_items'' of None \<Rightarrow> JArr [] | Some j \<Rightarrow> j)")
            case (Inl e)
            then show ?thesis using Inr ins cust by (auto simp: order_step_def JObj Some Let_def)
          next
            case it: (Inr lis)
            have "list_all (\<lambda>li. \<not> null_or_missing_id li) lis"
              using assms(2) children_iter[OF it] JObj by simp
            from line_items_loop_fixed[OF this, of oid] show ?thesis
            proof
              assume "\<exists>e. \<forall>t. line_items_loop oid lis t = Inl e"
              then show ?thesis using Inr ins it cust by (auto simp: order_step_def JObj Some Let_def)
            next
              assume "\<exists>ws. \<forall>t. line_items_loop oid lis t = Inr (apply_writes ws t)"
              then obtain ws where "\<And>t. line_items_loop oid lis t = Inr (apply_writes ws t)"
                by auto
              then have "\<forall>ot lt mx. order_step ord (ot, lt, mx)
                     = Inr (upsert k ?row ot, apply_writes ws lt, bump_max (map_of kvs ''updated_at'') mx)"
                using Inr ins it cust by (simp add: order_step_def JObj Some Let_def)
              then show ?thesis by blast
            qed
          qed
        qed
      qed
    qed
  qed
qed (auto simp: order_step_def)

lemma orders_loop_fixed:
  assumes "list_all (\<lambda>ord. \<not> null_id ord
              \<and> list_all (\<lambda>li. \<not> null_or_missing_id li) (children ''line_items'' ord)) items"
  shows "(\<exists>e. \<forall>acc. orders_loop items acc = Inl e)
         \<or> (\<exists>ow lw us. \<forall>ot lt mx.
               orders_loop items (ot, lt, mx)
                 = Inr (apply_writes ow ot, apply_writes lw lt, fold bump_max us mx))"
  using assms
proof (induction items)
  case Nil
  have "\<forall>ot lt mx. orders_loop [] (ot, lt, mx)
          = Inr (apply_writes [] ot, apply_writes [] lt, fold bump_max [] mx)"
    by (simp add: apply_writes_Nil)
  then show ?case by blast
next
  case (Cons ord items)
  from Cons.prems have a: "\<not> null_id ord"
      "list_all (\<lambda>li. \<not> null_or_missing_id li) (children ''line_items'' ord)"
    and rest: "list_all (\<lambda>ord. \<not> null_id ord
              \<and> list_all (\<lambda>li. \<not> null_or_missing_id li) (children ''line_items'' ord)) items"
    by auto
  from order_step_fixed[OF a] show ?case
  proof
    assume "\<exists>e. \<forall>acc. order_step ord acc = Inl e"
    then show ?thesis by auto
  next
    assume "\<exists>k r ws u. \<forall>ot lt mx.
               order_step ord (ot, lt, mx) = Inr (upsert k r ot, apply_writes ws lt, bump_max u mx)"
    then obtain k r ws u where step: "\<And>ot lt mx.
               order_step ord (ot, lt, mx) = Inr (upsert k r ot, apply_writes ws lt, bump_max u mx)"
      by auto
    from Cons.IH[OF rest] show ?thesis
    proof
      assume "\<exists>e. \<forall>acc. orders_loop items acc = Inl e"
      then obtain e where "\<And>acc. orders_loop items acc = Inl e" by auto
      then have "\<forall>acc. orders_loop (ord # items) acc = Inl e"
        using step by (auto split: sum.splits)
      then show ?thesis by blast
    next
      assume "\<exists>ow lw us. \<forall>ot lt mx. orders_loop items (ot, lt, mx)
                 = Inr (apply_writes ow ot, apply_writes lw lt, fold bump_max us mx)"
      then obtain ow lw us where "\<And>ot lt mx. orders_loop items (ot, lt, mx)
                 = Inr (apply_writes ow ot, apply_writes lw lt, fold bump_max us mx)"
        by auto
      then have "\<forall>ot lt mx. orders_loop (ord # items) (ot, lt, mx)
                 = Inr (apply_writes ((k, r) # ow) ot, apply_writes (ws @ lw) lt, fold bump_max (u # us) mx)"
        using step by (simp add: apply_writes_Cons apply_writes_append)
      then show ?thesis by blast
    qed
  qed
qed

lemma store_orders_twice:
  assumes "list_all (\<lambda>ord. \<not> null_id ord
              \<and> list_all (\<lambda>li. \<not> null_or_missing_id li) (children ''line_items'' ord)) items"
  shows "after_store store_orders items (after_store store_orders items d)
           = after_store store_orders items d"
  using orders_loop_fixed[OF assms]
proof
  assume "\<exists>e. \<forall>acc. orders_loop items acc = Inl e"
  then show ?thesis by (auto simp: after_store_def store_orders_def)
next
  assume "\<exists>ow lw us. \<forall>ot lt mx. orders_loop items (ot, lt, mx)
                 = Inr (apply_writes ow ot, apply_writes lw lt, fold bump_max us mx)"
  then obtain ow lw us where l: "\<And>ot lt mx. orders_loop items (ot, lt, mx)
                 = Inr (apply_writes ow ot, apply_writes lw lt, fold bump_max us mx)"
    by auto
  show ?thesis
    by (cases "fold bump_max us None")
       (simp_all add: after_store_def store_orders_def l set_watermark_def db_set_metadata_def
          apply_writes_twice)
qed

subsection \<open>The price fields\<close>

lemma map_of_filter_key:
  "map_of (filter (\<lambda>kv. fst kv \<noteq> k) kvs) k' = (if k' = k then None else map_of kvs k')"
  by (induction kvs) auto

lemma map_of_map_value:
  "map_of (map (\<lambda>kv. if fst kv = k then (fst kv, f (snd kv)) else kv) kvs) k'
     = (if k' = k then map_option f (map_of kvs k') else map_of kvs k')"
  by (induction kvs) auto

lemma bind_get_without_key: "k' \<noteq> k \<Longrightarrow> bind_get (filter (\<lambda>kv. fst kv \<noteq> k) kvs) k' = bind_get kvs k'"
  by (simp add: bind_get_def map_of_filter_key)

lemma succeeds_Inr: "succeeds x = (\<exists>a. x = Inr a)"
  by (cases x) (auto simp: succeeds_def)

lemma insert_or_replace_fails:
  "insert_or_replace key r t = Inl e \<Longrightarrow> insert_or_replace key r' t' = Inr a \<Longrightarrow> False"
  by (cases key) (auto simp: insert_or_replace_def split: option.splits)

lemma line_item_step_without_price:
  "succeeds (line_item_step oid li t) = succeeds (line_item_step oid (without_key ''price'' li) t')"
proof (cases li)
  case (JObj kvs)
  let ?kvs = "filter (\<lambda>kv. fst kv \<noteq> ''price'') kvs"
  have b: "\<And>k. k \<noteq> ''price'' \<Longrightarrow> bind_get ?kvs k = bind_get kvs k"
    by (rule bind_get_without_key)
  have q: "map_of ?kvs ''quantity'' = map_of kvs ''quantity''"
    by (simp add: map_of_filter_key)
  show ?thesis
    unfolding JObj without_key_def line_item_step_def Let_def
    by (auto simp: b q succeeds_def split: sum.splits dest: insert_or_replace_fails)
qed (simp_all add: without_key_def line_item_step_def succeeds_def)


lemma line_items_loop_without_price:
  "succeeds (line_items_loop oid lis t)
     = succeeds (line_items_loop oid (map (without_key ''price'') lis) t')"
proof (induction lis arbitrary: t t')
  case Nil
  then show ?case by (simp add: succeeds_def)
next
  case (Cons li lis)
  show ?case
  proof (cases "line_item_step oid li t")
    case (Inl e)
    then have "\<not> succeeds (line_item_step oid (without_key ''price'' li) t')"
      using line_item_step_without_price[of oid li t t'] by (simp add: succeeds_def)
    then show ?thesis using Inl by (auto simp: succeeds_def split: sum.splits)
  next
    case (Inr t1)
    then have "succeeds (line_item_step oid (without_key ''price'' li) t')"
      using line_item_step_without_price[of oid li t t'] by (simp add: succeeds_def)
    then obtain t1' where "line_item_step oid (without_key ''price'' li) t' = Inr t1'"
      by (auto simp: succeeds_Inr)
    then show ?thesis using Inr Cons.IH[of t1 t1'] by simp
  qed
qed

lemma py_iter_without_item_prices:
  "py_iter (without_item_prices j)
     = (case py_iter j of Inl e \<Rightarrow> Inl e | Inr xs \<Rightarrow> Inr (map (without_key ''price'') xs))"
  by (cases j) (auto simp: py_iter_def without_item_prices_def without_key_def comp_def)

lemma map_of_without_prices:
  "map_of (map (\<lambda>kv. if fst kv = ''line_items'' then (fst kv, without_item_prices (snd kv)) else kv)
                    (filter (\<lambda>kv. fst kv \<noteq> ''total_price'') kvs)) k
     = (if k = ''total_price'' then None
        else if k = ''line_items'' then map_option without_item_prices (map_of kvs k)
        else map_of kvs k)"
  by (simp add: map_of_map_value map_of_filter_key)

lemma order_step_without_prices:
  "succeeds (order_step ord (ot, lt, mx)) = succeeds (order_step (without_prices ord) (ot', lt', mx'))"
proof (cases ord)
  case (JObj kvs)
  let ?kvs = "map (\<lambda>kv. if fst kv = ''line_items'' then (fst kv, without_item_prices (snd kv)) else kv)
                    (filter (\<lambda>kv. fst kv \<noteq> ''total_price'') kvs)"
  have wp: "without_prices (JObj kvs) = JObj ?kvs" by (simp add: without_prices_def)
  have id: "map_of ?kvs ''id'' = map_of kvs ''id''" by (simp add: map_of_without_prices)
  have cu: "customer_id_of ?kvs = customer_id_of kvs"
    by (simp add: customer_id_of_def map_of_without_prices)
  have b: "\<And>k. k \<noteq> ''total_price'' \<Longrightarrow> k \<noteq> ''line_items'' \<Longrightarrow> bind_get ?kvs k = bind_get kvs k"
    by (simp add: bind_get_def map_of_without_prices)
  have it: "py_iter (case map_of ?kvs ''line_items'' of None \<Rightarrow> JArr [] | Some j \<Rightarrow> j)
          = (case py_iter (case map_of kvs ''line_items'' of None \<Rightarrow> JArr [] | Some j \<Rightarrow> j) of
               Inl e \<Rightarrow> Inl e | Inr xs \<Rightarrow> Inr (map (without_key ''price'') xs))"
    by (cases "map_of kvs ''line_items''")
       (simp_all add: map_of_without_prices py_iter_without_item_prices, simp add: py_iter_def)
  show ?thesis
  proof (cases "map_of kvs ''id''")
    case None
    then show ?thesis by (simp add: order_step_def JObj wp id succeeds_def)
  next
    case (Some oid)
    show ?thesis
    proof (cases "customer_id_of kvs")
      case (Inl e)
      then show ?thesis by (simp add: order_step_def JObj wp id cu Some succeeds_def)
    next
      case cust: (Inr customer_id)
      let ?binds = "[bind_param oid, bind_get kvs ''order_number'',
                              bind_param customer_id, bind_get kvs ''email'', bind_get kvs ''currency'',
                              bind_get kvs ''created_at'', bind_get kvs ''updated_at'',
                              bind_get kvs ''financial_status'', bind_get kvs ''fulfillment_status'']"
      show ?thesis
      proof (cases "bind_all ?binds")
        case (Inl e)
        then show ?thesis by (simp add: order_step_def JObj wp id cu cust Some b succeeds_def Let_def)
      next
        case (Inr vs)
        let ?row = "\<lambda>tp raw. \<lparr>o_order_number = vs ! 1, o_customer_id = vs ! 2, o_email = vs ! 3,
                                   o_total_price = tp, o_currency = vs ! 4,
                                   o_created_at = vs ! 5, o_updated_at = vs ! 6,
                                   o_financial_status = vs ! 7, o_fulfillment_status = vs ! 8,
                                   o_raw_json = raw\<rparr>"
        let ?r1 = "?row (bind_float (try_float (map_of kvs ''total_price''))) (JObj kvs)"
        let ?r2 = "?row (bind_float (try_float (map_of ?kvs ''total_price''))) (JObj ?kvs)"
        show ?thesis
        proof (cases "insert_or_replace (vs ! 0) ?r1 ot")
          case (Inl e)
          then have "\<exists>e'. insert_or_replace (vs ! 0) ?r2 ot' = Inl e'"
            using insert_or_replace_fails[of "vs ! 0" ?r1 ot e ?r2 ot']
            by (cases "insert_or_replace (vs ! 0) ?r2 ot'") auto
          then show ?thesis
            using Inl Inr
            by (auto simp: order_step_def JObj wp id cu cust Some b succeeds_def Let_def)
        next
          case ins: (Inr ot1)
          then obtain ot1' where ins': "insert_or_replace (vs ! 0) ?r2 ot' = Inr ot1'"
            using insert_or_replace_fails[of "vs ! 0" ?r2 ot' _ ?r1 ot ot1]
            by (cases "insert_or_replace (vs ! 0) ?r2 ot'") auto
          show ?thesis
          proof (cases "py_iter (case map_of kvs ''line_items'' of None \<Rightarrow> JArr [] | Some j \<Rightarrow> j)")
            case (Inl e)
            then show ?thesis
              using ins ins' Inr
              by (simp add: order_step_def JObj wp id cu cust Some b succeeds_def Let_def it)
          next
            case its: (Inr lis)
            have "succeeds (line_items_loop oid lis lt)
                    = succeeds (line_items_loop oid (map (without_key ''price'') lis) lt')"
              by (rule line_items_loop_without_price)
            then show ?thesis
              using ins ins' Inr its
              by (auto simp: order_step_def JObj wp id cu cust Some b succeeds_def Let_def it
                       split: sum.splits)
          qed
        qed
      qed
    qed
  qed
qed (simp_all add: without_prices_def order_step_def succeeds_def)

lemma orders_loop_without_prices:
  "succeeds (orders_loop items acc) = succeeds (orders_loop (map without_prices items) acc')"
proof (induction items arbitrary: acc acc')
  case Nil
  then show ?case by (simp add: succeeds_def)
next
  case (Cons ord items)
  obtain ot lt mx where acc: "acc = (ot, lt, mx)" by (cases acc)
  obtain ot' lt' mx' where acc': "acc' = (ot', lt', mx')" by (cases acc')
  show ?case
  proof (cases "order_step ord acc")
    case (Inl e)
    then have "\<not> succeeds (order_step (without_prices ord) acc')"
      using order_step_without_prices[of ord ot lt mx ot' lt' mx'] by (simp add: succeeds_def acc acc')
    then show ?thesis using Inl by (auto simp: succeeds_def split: sum.splits)
  next
    case (Inr a1)
    then have "succeeds (order_step (without_prices ord) acc')"
      using order_step_without_prices[of ord ot lt mx ot' lt' mx'] by (simp add: succeeds_def acc acc')
    then obtain a1' where "order_step (without_prices ord) acc' = Inr a1'"
      by (auto simp: succeeds_Inr)
    then show ?thesis using Inr Cons.IH[of a1 a1'] by simp
  qed
qed


lemma upsert_member: "(k, r) \<in> set (upsert k r t)"
  by (induction t) auto

lemma insert_or_replace_member: "insert_or_replace key r t = Inr t' \<Longrightarrow> \<exists>k. (k, r) \<in> set t'"
  using upsert_member[of _ r t]
  by (cases key) (auto simp: insert_or_replace_def split: option.splits)

lemma bind_float_try_float:
  "bind_float (try_float x)
     = (case x of
          None \<Rightarrow> SReal (Float_of_str ''0.0'')
        | Some j \<Rightarrow> (case py_float j of None \<Rightarrow> SNull
                     | Some f \<Rightarrow> if is_nan f then SNull else SReal f))"
proof -
  have "\<not> is_nan (Float_of_str ''0.0'')" by code_simp
  then show ?thesis by (auto simp: bind_float_def try_float_def split: option.splits)
qed

lemma order_step_price:
  assumes "order_step (JObj kvs) (ot, lt, mx) = Inr acc'"
  shows "\<exists>k row. (k, row) \<in> set (fst acc') \<and> o_raw_json row = JObj kvs
           \<and> o_total_price row = bind_float (try_float (map_of kvs ''total_price''))"
  using assms
  by (auto simp: order_step_def Let_def split: option.splits sum.splits
           dest!: insert_or_replace_member; force)

lemma line_item_step_price:
  assumes "line_item_step oid (JObj kvs) t = Inr t'"
  shows "\<exists>k row. (k, row) \<in> set t' \<and> li_raw_json row = JObj kvs
           \<and> li_price row = bind_float (try_float (map_of kvs ''price''))"
  using assms
  by (auto simp: line_item_step_def Let_def split: option.splits sum.splits
           dest!: insert_or_replace_member; force)

lemma store_orders_succeeds: "succeeds (store_orders items d) = succeeds (orders_loop items (orders d, line_items d, None))"
  by (auto simp: store_orders_def succeeds_def split: sum.splits)

subsection \<open>Claims about the store step\<close>

text \<open>
  C1 (amended).  Upsert idempotence: for a fetched record set in which no row is written
  under a NULL \<open>id\<close>, running the store step of a pass a second time on the same set
  leaves the store as the first run left it.  This holds for products with their
  variants, for customers, and for orders with their line items.
\<close>

theorem upsert_idempotent:
  "(list_all (\<lambda>p. \<not> null_id p \<and> list_all (\<lambda>v. \<not> null_id v) (children ''variants'' p)) ps
      \<longrightarrow> after_store store_products ps (after_store store_products ps d)
            = after_store store_products ps d)
   \<and> (list_all (\<lambda>c. \<not> null_id c) cs
      \<longrightarrow> after_store store_customers cs (after_store store_customers cs d)
            = after_store store_customers cs d)
   \<and> (list_all (\<lambda>ord. \<not> null_id ord
           \<and> list_all (\<lambda>li. \<not> null_or_missing_id li) (children ''line_items'' ord)) os
      \<longrightarrow> after_store store_orders os (after_store store_orders os d)
            = after_store store_orders os d)"
  using store_products_twice[of ps d] store_customers_twice[of cs d] store_orders_twice[of os d]
  by blast

theorem upsert_idempotent_witness:
  "after_store store_products sample_products (after_store store_products sample_products empty_db)
     = after_store store_products sample_products empty_db
   \<and> map fst (products (after_store store_products sample_products empty_db)) = [10, 11]
   \<and> map fst (product_variants (after_store store_products sample_products empty_db)) = [101, 102]
   \<and> after_store store_customers sample_customers (after_store store_customers sample_customers empty_db)
     = after_store store_customers sample_customers empty_db
   \<and> map fst (customers (after_store store_customers sample_customers empty_db)) = [3, 7]
   \<and> after_store store_orders sample_orders (after_store store_orders sample_orders empty_db)
     = after_store store_orders sample_orders empty_db
   \<and> map fst (line_items (after_store store_orders sample_orders empty_db)) = [1, 2, 3]"
proof -
  have p: "list_all (\<lambda>p. \<not> null_id p \<and> list_all (\<lambda>v. \<not> null_id v) (children ''variants'' p))
             sample_products"
    by code_simp
  have c: "list_all (\<lambda>c. \<not> null_id c) sample_customers"
    by code_simp
  have o: "list_all (\<lambda>ord. \<not> null_id ord
           \<and> list_all (\<lambda>li. \<not> null_or_missing_id li) (children ''line_items'' ord)) sample_orders"
    by code_simp
  have kp: "map fst (products (after_store store_products sample_products empty_db)) = [10, 11]"
    by code_simp
  have kv: "map fst (product_variants (after_store store_products sample_products empty_db)) = [101, 102]"
    by code_simp
  have kc: "map fst (customers (after_store store_customers sample_customers empty_db)) = [3, 7]"
    by code_simp
  have kl: "map fst (line_items (after_store store_orders sample_orders empty_db)) = [1, 2, 3]"
    by code_simp
  show ?thesis
    using upsert_idempotent[of sample_products empty_db sample_customers sample_orders] p c o kp kv kc kl
    by simp
qed

theorem upsert_idempotent_counterexample:
  "after_store store_orders order_with_anonymous_item
       (after_store store_orders order_with_anonymous_item empty_db)
     \<noteq> after_store store_orders order_with_anonymous_item empty_db"
proof
  assume eq: "after_store store_orders order_with_anonymous_item
       (after_store store_orders order_with_anonymous_item empty_db)
     = after_store store_orders order_with_anonymous_item empty_db"
  have once: "map fst (line_items (after_store store_orders order_with_anonymous_item empty_db)) = [1]"
    by code_simp
  have twice: "map fst (line_items (after_store store_orders order_with_anonymous_item
       (after_store store_orders order_with_anonymous_item empty_db))) = [1, 2]"
    by code_simp
  from once twice show False unfolding eq by simp
qed

text \<open>
  C7 (amended).  Numeric coercion: the price fields never make the orders pass raise: a
  store step that goes through on the records without their price fields goes through on
  the records as they are.  The row written for an order holds, as \<open>total_price\<close>, NULL
  when the field is present and \<open>float\<close> does not read it (as for \<open>"abc"\<close>), the
  float when it does, and 0.0 when the field is missing; the row written for a line item
  holds its \<open>price\<close> by the same rule.
\<close>

theorem numeric_coercion:
  "(succeeds (store_orders (map without_prices items) d) \<longrightarrow> succeeds (store_orders items d))
   \<and> (order_step (JObj kvs) (ot, lt, mx) = Inr acc'
      \<longrightarrow> (\<exists>k row. (k, row) \<in> set (fst acc') \<and> o_raw_json row = JObj kvs
             \<and> o_total_price row
                 = (case map_of kvs ''total_price'' of
                      None \<Rightarrow> SReal (Float_of_str ''0.0'')
                    | Some j \<Rightarrow> (case py_float j of None \<Rightarrow> SNull
                                 | Some f \<Rightarrow> if is_nan f then SNull else SReal f))))
   \<and> (line_item_step oid (JObj kvs') t = Inr t'
      \<longrightarrow> (\<exists>k row. (k, row) \<in> set t' \<and> li_raw_json row = JObj kvs'
             \<and> li_price row
                 = (case map_of kvs' ''price'' of
                      None \<Rightarrow> SReal (Float_of_str ''0.0'')
                    | Some j \<Rightarrow> (case py_float j of None \<Rightarrow> SNull
                                 | Some f \<Rightarrow> if is_nan f then SNull else SReal f))))
   \<and> py_float (JStr ''abc'') = None"
proof (intro conjI impI)
  assume "succeeds (store_orders (map without_prices items) d)"
  then show "succeeds (store_orders items d)"
    using orders_loop_without_prices[of items "(orders d, line_items d, None)"
            "(orders d, line_items d, None)"]
    by (simp add: store_orders_succeeds)
next
  assume "order_step (JObj kvs) (ot, lt, mx) = Inr acc'"
  from order_step_price[OF this]
  show "\<exists>k row. (k, row) \<in> set (fst acc') \<and> o_raw_json row = JObj kvs
             \<and> o_total_price row
                 = (case map_of kvs ''total_price'' of
                      None \<Rightarrow> SReal (Float_of_str ''0.0'')
                    | Some j \<Rightarrow> (case py_float j of None \<Rightarrow> SNull
                                 | Some f \<Rightarrow> if is_nan f then SNull else SReal f))"
    by (simp only: bind_float_try_float)
next
  assume "line_item_step oid (JObj kvs') t = Inr t'"
  from line_item_step_price[OF this]
  show "\<exists>k row. (k, row) \<in> set t' \<and> li_raw_json row = JObj kvs'
             \<and> li_price row
                 = (case map_of kvs' ''price'' of
                      None \<Rightarrow> SReal (Float_of_str ''0.0'')
                    | Some j \<Rightarrow> (case py_float j of None \<Rightarrow> SNull
                                 | Some f \<Rightarrow> if is_nan f then SNull else SReal f))"
    by (simp only: bind_float_try_float)
next
  show "py_float (JStr ''abc'') = None" by code_simp
qed

theorem numeric_coercion_witness:
  "succeeds (store_orders sample_orders empty_db)
   \<and> map (\<lambda>kr. (fst kr, o_total_price (snd kr)))
         (orders (after_store store_orders sample_orders empty_db)) = [(1001, SNull)]
   \<and> map (\<lambda>kr. (fst kr, li_order_id (snd kr), li_price (snd kr)))
         (line_items (after_store store_orders sample_orders empty_db))
       = [(1, SInt 1001, SReal (Float_of_str ''9.99'')), (2, SInt 1001, SNull),
          (3, SInt 1001, SReal (Float_of_str ''0.0''))]"
proof -
  have h: "succeeds (store_orders (map without_prices sample_orders) empty_db)"
    by code_simp
  have a: "succeeds (store_orders sample_orders empty_db)"
    using numeric_coercion[where items = sample_orders and d = empty_db, THEN conjunct1] h
    by (rule mp)
  have b: "map (\<lambda>kr. (fst kr, o_total_price (snd kr)))
         (orders (after_store store_orders sample_orders empty_db)) = [(1001, SNull)]"
    by code_simp
  have c: "map (\<lambda>kr. (fst kr, li_order_id (snd kr), li_price (snd kr)))
         (line_items (after_store store_orders sample_orders empty_db))
       = [(1, SInt 1001, SReal (Float_of_str ''9.99'')), (2, SInt 1001, SNull),
          (3, SInt 1001, SReal (Float_of_str ''0.0''))]"
    by code_simp
  show ?thesis using a b c by (intro conjI)
qed

theorem numeric_coercion_counterexample:
  "map (o_total_price \<circ> snd)
       (orders (after_store store_orders [JObj [(''id'', JInt 5)]] empty_db))
     = [SReal (Float_of_str ''0.0'')]
   \<and> SReal (Float_of_str ''0.0'') \<noteq> SNull"
proof -
  have "map (o_total_price \<circ> snd)
       (orders (after_store store_orders [JObj [(''id'', JInt 5)]] empty_db))
     = [SReal (Float_of_str ''0.0'')]"
    by code_simp
  then show ?thesis by simp
qed

section \<open>Properties of the passes and the pipeline\<close>

lemma products_loop_append:
  "products_loop (xs @ ys) acc
     = (case products_loop xs acc of Inl e \<Rightarrow> Inl e | Inr a \<Rightarrow> products_loop ys a)"
  by (induction xs arbitrary: acc) (auto split: sum.splits)

lemma customers_loop_append:
  "customers_loop (xs @ ys) acc
     = (case customers_loop xs acc of Inl e \<Rightarrow> Inl e | Inr a \<Rightarrow> customers_loop ys a)"
  by (induction xs arbitrary: acc) (auto split: sum.splits)

lemma orders_loop_append:
  "orders_loop (xs @ ys) acc
     = (case orders_loop xs acc of Inl e \<Rightarrow> Inl e | Inr a \<Rightarrow> orders_loop ys a)"
  by (induction xs arbitrary: acc) (auto split: sum.splits)

lemma store_products_result:
  "succeeds (store_products items d)
     \<Longrightarrow> store_products items d = Inr (length items, after_store store_products items d)"
  by (auto simp: succeeds_def after_store_def store_products_def split: sum.splits)

lemma store_customers_result:
  "succeeds (store_customers items d)
     \<Longrightarrow> store_customers items d = Inr (length items, after_store store_customers items d)"
  by (auto simp: succeeds_def after_store_def store_customers_def split: sum.splits)

lemma store_orders_result:
  "succeeds (store_orders items d)
     \<Longrightarrow> store_orders items d = Inr (length items, after_store store_orders items d)"
  by (auto simp: succeeds_def after_store_def store_orders_def split: sum.splits)

lemma succeeds_projr: "succeeds x \<Longrightarrow> x = Inr (projr x)"
  by (cases x) (auto simp: succeeds_def)

text \<open>
  C9 (amended).  A storage fault is not skipped: when the write of one record raises, in
  any of the three passes, the store step raises that exception, whatever was written
  before the record and whatever follows it; and a pass whose store step raises returns
  the exception with the database as it was before the pass, so that no row of the pass
  is committed and the watermark is not advanced.
\<close>

theorem storage_fault_aborts_pass:
  "(products_loop pre (products d, product_variants d, None) = Inr pa \<and> product_step r pa = Inl e
      \<longrightarrow> store_products (pre @ r # post) d = Inl e)
   \<and> (customers_loop pre (customers d, None) = Inr ca \<and> customer_step r ca = Inl e
      \<longrightarrow> store_customers (pre @ r # post) d = Inl e)
   \<and> (orders_loop pre (orders d, line_items d, None) = Inr oa \<and> order_step r oa = Inl e
      \<longrightarrow> store_orders (pre @ r # post) d = Inl e)
   \<and> (sync_params inc (db_get_metadata key (db st)) ps (env st) = Inr ps'
        \<and> fetch_all_rest endpoint ps' (Some item_key) (env st) = Some (Inr items, w)
        \<and> store items (db st) = Inl e
      \<longrightarrow> sync_pass key endpoint item_key ps store inc st = Some (Inl e, st\<lparr>env := w\<rparr>))"
  by (simp add: store_products_def store_customers_def store_orders_def sync_pass_def
        products_loop_append customers_loop_append orders_loop_append)

theorem storage_fault_aborts_pass_witness:
  "store_customers faulty_customers empty_db = Inl ProgrammingError
   \<and> (\<exists>w. fetch_and_store_customers True
              \<lparr>db = empty_db, env = world0 [page_of ''customers'' faulty_customers None]\<rparr>
            = Some (Inl ProgrammingError, \<lparr>db = empty_db, env = w\<rparr>))"
proof -
  let ?pre = "[faulty_customers ! 0]"
  let ?w = "world0 [page_of ''customers'' faulty_customers None]"
  let ?st = "\<lparr>db = empty_db, env = ?w\<rparr>"
  let ?r = "\<lparr>status_code = 200, retry_after = None, link = None,
             body = Some (JObj [(''customers'', JArr faulty_customers)])\<rparr>"
  have split: "faulty_customers = ?pre @ (faulty_customers ! 1) # [faulty_customers ! 2]"
    by (simp add: faulty_customers_def)
  have "succeeds (customers_loop ?pre (customers empty_db, None))" by code_simp
  then have pre: "customers_loop ?pre (customers empty_db, None)
                    = Inr (projr (customers_loop ?pre (customers empty_db, None)))"
    by (rule succeeds_projr)
  have bad: "customer_step (faulty_customers ! 1) (projr (customers_loop ?pre (customers empty_db, None)))
               = Inl ProgrammingError"
    by code_simp
  have a: "store_customers faulty_customers empty_db = Inl ProgrammingError"
    using storage_fault_aborts_pass[where pre = ?pre and d = empty_db and r = "faulty_customers ! 1"
            and e = ProgrammingError and post = "[faulty_customers ! 2]"
            and ca = "projr (customers_loop ?pre (customers empty_db, None))",
            THEN conjunct2, THEN conjunct1] pre bad split
    by simp
  have sp: "sync_params True (db_get_metadata ''customers_last_sync'' (db ?st))
              [(''limit'', JInt 250)] (env ?st) = Inr [(''limit'', JInt 250)]"
    by (simp add: sync_params_def db_get_metadata_def empty_db_def)
  have f: "fetch_all_rest ''customers.json'' [(''limit'', JInt 250)] (Some ''customers'') (env ?st)
             = Some (Inr faulty_customers,
                     ?w\<lparr>pos := Suc (pos ?w),
                        trace := trace ?w @ [Sent (BASE_URL (shopify_store ?w) @ ''customers.json'')
                                   (setdefault [(''limit'', JInt 250)] ''limit'' (JInt 250))]\<rparr>)"
    by (simp, rule fetch_all_rest_single_page[where r = ?r])
       (simp_all add: world0_def script_def page_of_def accepted_def page_items_def dict_get_def
          py_iter_def)
  have "fetch_and_store_customers True ?st
          = Some (Inl ProgrammingError,
                  ?st\<lparr>env := ?w\<lparr>pos := Suc (pos ?w),
                        trace := trace ?w @ [Sent (BASE_URL (shopify_store ?w) @ ''customers.json'')
                                   (setdefault [(''limit'', JInt 250)] ''limit'' (JInt 250))]\<rparr>\<rparr>)"
    unfolding fetch_and_store_customers_def
    using storage_fault_aborts_pass[where inc = True and key = "''customers_last_sync''" and st = ?st
            and ps = "[(''limit'', JInt 250)]" and ps' = "[(''limit'', JInt 250)]"
            and endpoint = "''customers.json''" and item_key = "''customers''"
            and items = faulty_customers and store = store_customers and e = ProgrammingError,
            THEN conjunct2, THEN conjunct2, THEN conjunct2] sp f a
    by simp
  then have b: "\<exists>w. fetch_and_store_customers True ?st = Some (Inl ProgrammingError, \<lparr>db = empty_db, env = w\<rparr>)"
    by simp
  show ?thesis using a b by (intro conjI)
qed

theorem storage_fault_aborts_pass_counterexample:
  "store_customers faulty_customers empty_db = Inl ProgrammingError
   \<and> customers (after_store store_customers faulty_customers empty_db) = []
   \<and> map fst (customers (after_store store_customers
                            [faulty_customers ! 0, faulty_customers ! 2] empty_db)) = [1, 3]"
proof -
  have "case store_customers faulty_customers empty_db of
          Inl e \<Rightarrow> e = ProgrammingError | Inr a \<Rightarrow> False"
    by code_simp
  then have a: "store_customers faulty_customers empty_db = Inl ProgrammingError"
    by (cases "store_customers faulty_customers empty_db") auto
  have b: "customers (after_store store_customers faulty_customers empty_db) = []" by code_simp
  have c: "map fst (customers (after_store store_customers
                            [faulty_customers ! 0, faulty_customers ! 2] empty_db)) = [1, 3]"
    by code_simp
  show ?thesis using a b c by (intro conjI)
qed

text \<open>
  C4.  Fatal-fetch atomicity and partial-run resumability: when the fetch of a pass
  fails fatally, \<open>run_full_sync\<close> ends with that exception and with the database as the
  passes completed before it left it: the failing pass has written nothing and has not
  touched its watermark, the passes after it do not run, and what the earlier passes
  committed, their watermarks included, stays.
\<close>

theorem fatal_fetch_atomic:
  "(sync_params inc (db_get_metadata ''products_last_sync'' (init_db (db st)))
        [(''limit'', JInt 250)] (env st) = Inr ps'
      \<and> fetch_all_rest ''products.json'' ps' (Some ''products'') (env st) = Some (Inl e, w)
      \<longrightarrow> run_full_sync inc st = Some (Inl e, \<lparr>db = init_db (db st), env = w\<rparr>))
   \<and> (fetch_and_store_products inc (st\<lparr>db := init_db (db st)\<rparr>) = Some (Inr np, sta)
      \<and> sync_params inc (db_get_metadata ''customers_last_sync'' (db sta))
            [(''limit'', JInt 250)] (env sta) = Inr ps'
      \<and> fetch_all_rest ''customers.json'' ps' (Some ''customers'') (env sta) = Some (Inl e, w)
      \<longrightarrow> run_full_sync inc st = Some (Inl e, sta\<lparr>env := w\<rparr>))
   \<and> (fetch_and_store_products inc (st\<lparr>db := init_db (db st)\<rparr>) = Some (Inr np, sta)
      \<and> fetch_and_store_customers inc sta = Some (Inr nc, stb)
      \<and> sync_params inc (db_get_metadata ''orders_last_sync'' (db stb))
            [(''limit'', JInt 250), (''status'', JStr ''any'')] (env stb) = Inr ps'
      \<and> fetch_all_rest ''orders.json'' ps' (Some ''orders'') (env stb) = Some (Inl e, w)
      \<longrightarrow> run_full_sync inc st = Some (Inl e, stb\<lparr>env := w\<rparr>))"
  by (simp add: run_full_sync_def fetch_and_store_products_def fetch_and_store_customers_def
        fetch_and_store_orders_def sync_pass_def)

theorem fatal_fetch_atomic_witness:
  "\<exists>st'. run_full_sync True
            \<lparr>db = empty_db, env = world0 [page_of ''products'' sample_products None]\<rparr>
          = Some (Inl RuntimeError, st')
        \<and> map fst (products (db st')) = [10, 11]
        \<and> metadata (db st') ''products_last_sync'' = Some ''2024-05-02T09:30:00+02:00''
        \<and> customers (db st') = []
        \<and> metadata (db st') ''customers_last_sync'' = None
        \<and> pos (env st') = 6"
proof -
  let ?w = "world0 [page_of ''products'' sample_products None]"
  let ?st = "\<lparr>db = empty_db, env = ?w\<rparr>"
  let ?r = "\<lparr>status_code = 200, retry_after = None, link = None,
             body = Some (JObj [(''products'', JArr sample_products)])\<rparr>"
  let ?d1 = "after_store store_products sample_products empty_db"
  let ?w1 = "?w\<lparr>pos := Suc (pos ?w),
                trace := trace ?w @ [Sent (BASE_URL (shopify_store ?w) @ ''products.json'')
                           (setdefault [(''limit'', JInt 250)] ''limit'' (JInt 250))]\<rparr>"
  let ?st1 = "\<lparr>db = ?d1, env = ?w1\<rparr>"
  let ?w2 = "after_failures 5 1 (BASE_URL (shopify_store ?w1) @ ''customers.json'')
               (setdefault [(''limit'', JInt 250)] ''limit'' (JInt 250)) ?w1"
  have sp: "sync_params True (db_get_metadata ''products_last_sync'' empty_db)
              [(''limit'', JInt 250)] ?w = Inr [(''limit'', JInt 250)]"
    by (simp add: sync_params_def db_get_metadata_def empty_db_def)
  have f: "fetch_all_rest ''products.json'' [(''limit'', JInt 250)] (Some ''products'') ?w
             = Some (Inr sample_products, ?w1)"
    by (rule fetch_all_rest_single_page[where r = ?r])
       (simp_all add: world0_def script_def page_of_def accepted_def page_items_def dict_get_def
          py_iter_def)
  have "succeeds (store_products sample_products empty_db)" by code_simp
  then have s: "store_products sample_products empty_db = Inr (length sample_products, ?d1)"
    by (rule store_products_result)
  have p: "fetch_and_store_products True (?st\<lparr>db := init_db (db ?st)\<rparr>)
             = Some (Inr (length sample_products), ?st1)"
    by (simp add: fetch_and_store_products_def sync_pass_def init_db_def sp f s)
  have m: "metadata ?d1 ''customers_last_sync'' = None" by code_simp
  have sc: "sync_params True (db_get_metadata ''customers_last_sync'' (db ?st1))
              [(''limit'', JInt 250)] (env ?st1) = Inr [(''limit'', JInt 250)]"
    by (simp add: sync_params_def db_get_metadata_def m)
  have down: "\<forall>i<5. failed_attempt (net ?w1 (pos ?w1 + i))"
    by (simp add: world0_def script_def failed_attempt_def)
  have fc: "fetch_all_rest ''customers.json'' [(''limit'', JInt 250)] (Some ''customers'') (env ?st1)
              = Some (Inl RuntimeError, ?w2)"
    using fetch_all_rest_unreachable[OF down, of "''customers.json''" "[(''limit'', JInt 250)]"
            "Some ''customers''"]
    by simp
  have run: "run_full_sync True ?st = Some (Inl RuntimeError, ?st1\<lparr>env := ?w2\<rparr>)"
    by (rule fatal_fetch_atomic[where inc = True and st = ?st and sta = ?st1
              and np = "length sample_products" and ps' = "[(''limit'', JInt 250)]"
              and e = RuntimeError and w = ?w2,
              THEN conjunct2, THEN conjunct1, THEN mp, OF conjI[OF p conjI[OF sc fc]]])
  have k: "map fst (products ?d1) = [10, 11]" by code_simp
  have wm: "metadata ?d1 ''products_last_sync'' = Some ''2024-05-02T09:30:00+02:00''" by code_simp
  have c: "customers ?d1 = []" by code_simp
  have ps: "pos ?w2 = 6" by (simp add: after_failures_def world0_def)
  show ?thesis
    using run k wm c m ps by (intro exI[where x = "?st1\<lparr>env := ?w2\<rparr>"]) simp
qed



lemma bump_max_stamp:
  "bump_max (map_of kvs ''updated_at'') mx
     = (case stamp_of (JObj kvs) of
          None \<Rightarrow> mx
        | Some dt \<Rightarrow>
            (case mx of
               None \<Rightarrow> Some dt
             | Some m \<Rightarrow> (case datetime_gt dt m of
                           Inl e \<Rightarrow> mx
                         | Inr later \<Rightarrow> if later then Some dt else mx)))"
  by (auto simp: bump_max_def stamp_of_def split: option.splits json.splits)

text \<open>The running maximum over the records, as a fold.\<close>

lemma products_loop_max:
  "products_loop items (pt, vt, mx) = Inr (pt', vt', mx')
     \<Longrightarrow> mx' = fold (\<lambda>p m. case p of JObj kvs \<Rightarrow> bump_max (map_of kvs ''updated_at'') m | _ \<Rightarrow> m) items mx"
proof (induction items arbitrary: pt vt mx)
  case Nil
  then show ?case by simp
next
  case (Cons p items)
  then show ?case
    by (auto simp: product_step_def split: sum.splits json.splits option.splits)
qed

lemma customers_loop_max:
  "customers_loop items (ct, mx) = Inr (ct', mx')
     \<Longrightarrow> mx' = fold (\<lambda>p m. case p of JObj kvs \<Rightarrow> bump_max (map_of kvs ''updated_at'') m | _ \<Rightarrow> m) items mx"
proof (induction items arbitrary: ct mx)
  case Nil
  then show ?case by simp
next
  case (Cons p items)
  then show ?case
    by (auto simp: customer_step_def split: sum.splits json.splits option.splits)
qed

lemma orders_loop_max:
  "orders_loop items (ot, lt, mx) = Inr (ot', lt', mx')
     \<Longrightarrow> mx' = fold (\<lambda>p m. case p of JObj kvs \<Rightarrow> bump_max (map_of kvs ''updated_at'') m | _ \<Rightarrow> m) items mx"
proof (induction items arbitrary: ot lt mx)
  case Nil
  then show ?case by simp
next
  case (Cons p items)
  then show ?case
    by (auto simp: order_step_def Let_def split: sum.splits json.splits option.splits)
qed


lemma stamps_Cons:
  "stamps (p # items) = (case stamp_of p of None \<Rightarrow> stamps items | Some t \<Rightarrow> t # stamps items)"
  by (cases "stamp_of p") (simp_all add: stamps_def map_filter_simps)

lemma step_stamp:
  "(case p of JObj kvs \<Rightarrow> bump_max (map_of kvs ''updated_at'') m | _ \<Rightarrow> m)
     = (case stamp_of p of
          None \<Rightarrow> m
        | Some dt \<Rightarrow>
            (case m of
               None \<Rightarrow> Some dt
             | Some mm \<Rightarrow> (case datetime_gt dt mm of
                           Inl e \<Rightarrow> m
                         | Inr later \<Rightarrow> if later then Some dt else m)))"
proof (cases p)
  case (JObj kvs)
  then show ?thesis by (simp add: bump_max_stamp)
qed (simp_all add: stamp_of_def)

lemma datetime_gt_same_kind:
  "(utcoffset a \<noteq> None) = (utcoffset b \<noteq> None)
     \<Longrightarrow> datetime_gt a b = Inr (utc_micros b < utc_micros a)"
  by (auto simp: datetime_gt_def utc_micros_def split: option.splits)

lemma running_max:
  assumes "\<forall>t \<in> set (stamps items). (utcoffset t \<noteq> None) = aw"
    and "\<forall>m. mx = Some m \<longrightarrow> (utcoffset m \<noteq> None) = aw"
  shows "case fold (\<lambda>p m. case p of JObj kvs \<Rightarrow> bump_max (map_of kvs ''updated_at'') m | _ \<Rightarrow> m)
                items mx of
           None \<Rightarrow> mx = None \<and> stamps items = []
         | Some d \<Rightarrow>
             (Some d = mx \<or> d \<in> set (stamps items)) \<and> (utcoffset d \<noteq> None) = aw
             \<and> (\<forall>t \<in> set (stamps items). utc_micros t \<le> utc_micros d)
             \<and> (\<forall>m. mx = Some m \<longrightarrow> utc_micros m \<le> utc_micros d)"
  using assms
proof (induction items arbitrary: mx)
  case Nil
  then show ?case by (cases mx) (simp_all add: stamps_def map_filter_simps)
next
  case (Cons p items)
  let ?F = "\<lambda>p m. case p of JObj kvs \<Rightarrow> bump_max (map_of kvs ''updated_at'') m | _ \<Rightarrow> m"
  show ?case
  proof (cases "stamp_of p")
    case None
    then have st: "stamps (p # items) = stamps items" by (simp add: stamps_Cons)
    have f: "?F p mx = mx" using None by (simp only: step_stamp) simp
    have fo: "fold ?F (p # items) mx = fold ?F items mx" using f by simp
    have rest: "\<forall>t \<in> set (stamps items). (utcoffset t \<noteq> None) = aw"
      using Cons.prems(1) st by simp
    show ?thesis unfolding fo st by (rule Cons.IH[OF rest Cons.prems(2)])
  next
    case (Some t)
    then have st: "stamps (p # items) = t # stamps items" by (simp add: stamps_Cons)
    have kt: "(utcoffset t \<noteq> None) = aw" using Cons.prems(1) st by simp
    have rest: "\<forall>t \<in> set (stamps items). (utcoffset t \<noteq> None) = aw"
      using Cons.prems(1) st by simp
    show ?thesis
    proof (cases mx)
      case None
      have f: "?F p mx = Some t" using Some None by (simp only: step_stamp) simp
      have fo: "fold ?F (p # items) mx = fold ?F items (Some t)" using f by simp
      have "\<forall>m. Some t = Some m \<longrightarrow> (utcoffset m \<noteq> None) = aw" using kt by simp
      from Cons.IH[OF rest this]
      show ?thesis unfolding fo st using None
        by (auto split: option.splits)
    next
      case m: (Some m)
      have km: "(utcoffset m \<noteq> None) = aw" using Cons.prems(2) m by simp
      have gt: "datetime_gt t m = Inr (utc_micros m < utc_micros t)"
        using datetime_gt_same_kind[of t m] kt km by simp
      show ?thesis
      proof (cases "utc_micros m < utc_micros t")
        case True
        have f: "?F p mx = Some t" using Some m gt True by (simp only: step_stamp) simp
        have fo: "fold ?F (p # items) mx = fold ?F items (Some t)" using f by simp
        have "\<forall>m. Some t = Some m \<longrightarrow> (utcoffset m \<noteq> None) = aw" using kt by simp
        from Cons.IH[OF rest this]
        show ?thesis unfolding fo st using m True
          by (auto split: option.splits)
      next
        case False
        have f: "?F p mx = mx" using Some m gt False by (simp only: step_stamp) simp
        have fo: "fold ?F (p # items) mx = fold ?F items mx" using f by simp
        from Cons.IH[OF rest Cons.prems(2)]
        show ?thesis unfolding fo st using m False
          by (auto split: option.splits)
      qed
    qed
  qed
qed


lemma watermark_from_fold:
  assumes "same_kind (stamps items)"
    and "metadata d0 key = metadata d key"
  shows "watermark_is_max key items d
           (set_watermark key
              (fold (\<lambda>p m. case p of JObj kvs \<Rightarrow> bump_max (map_of kvs ''updated_at'') m | _ \<Rightarrow> m)
                    items None) d0)"
proof -
  let ?m = "fold (\<lambda>p m. case p of JObj kvs \<Rightarrow> bump_max (map_of kvs ''updated_at'') m | _ \<Rightarrow> m)
                 items None"
  have "\<exists>aw. \<forall>t \<in> set (stamps items). (utcoffset t \<noteq> None) = aw"
  proof (cases "list_all (\<lambda>t. utcoffset t \<noteq> None) (stamps items)")
    case True
    then have "\<forall>t \<in> set (stamps items). (utcoffset t \<noteq> None) = True"
      by (simp add: list_all_iff)
    then show ?thesis by (rule exI)
  next
    case False
    then have "list_all (\<lambda>t. utcoffset t = None) (stamps items)"
      using assms(1) by (simp add: same_kind_def)
    then have "\<forall>t \<in> set (stamps items). (utcoffset t \<noteq> None) = False"
      by (simp add: list_all_iff)
    then show ?thesis by (rule exI)
  qed
  then obtain aw where aw: "\<forall>t \<in> set (stamps items). (utcoffset t \<noteq> None) = aw" ..
  have "\<forall>m. (None :: datetime option) = Some m \<longrightarrow> (utcoffset m \<noteq> None) = aw" by simp
  from running_max[OF aw this]
  show ?thesis
  proof (cases ?m)
    case None
    with \<open>case ?m of None \<Rightarrow> _ | Some d \<Rightarrow> _\<close> have "stamps items = []" by simp
    then show ?thesis using None assms(2) by (simp add: watermark_is_max_def set_watermark_def)
  next
    case (Some t)
    with \<open>case ?m of None \<Rightarrow> _ | Some d \<Rightarrow> _\<close>
    have t: "t \<in> set (stamps items)" "\<forall>t' \<in> set (stamps items). utc_micros t' \<le> utc_micros t"
      by auto
    then have "stamps items \<noteq> []" by auto
    then show ?thesis
      using Some t by (auto simp: watermark_is_max_def set_watermark_def db_set_metadata_def)
  qed
qed

text \<open>
  C2 (amended).  Watermark value: after the store step of a pass whose records carry
  timestamps of the API that compare with one another, the stored watermark of the entity
  is the maximum \<open>updated_at\<close> among the records of that pass, written in ISO 8601,
  whether or not it is below the watermark stored before; it is left unchanged when the
  pass fetched no record, or none with an \<open>updated_at\<close> that can be read.
\<close>

theorem watermark_value:
  "(store_products items d = Inr (n, d') \<and> same_kind (stamps items)
        \<and> list_all api_stamped items
      \<longrightarrow> watermark_is_max ''products_last_sync'' items d d')
   \<and> (store_customers items d = Inr (n, d') \<and> same_kind (stamps items)
        \<and> list_all api_stamped items
      \<longrightarrow> watermark_is_max ''customers_last_sync'' items d d')
   \<and> (store_orders items d = Inr (n, d') \<and> same_kind (stamps items)
        \<and> list_all api_stamped items
      \<longrightarrow> watermark_is_max ''orders_last_sync'' items d d')"
proof (intro conjI impI)
  assume a: "store_products items d = Inr (n, d') \<and> same_kind (stamps items)
        \<and> list_all api_stamped items"
  then obtain pt vt mx where l: "products_loop items (products d, product_variants d, None) = Inr (pt, vt, mx)"
    and d': "d' = set_watermark ''products_last_sync'' mx (d\<lparr>products := pt, product_variants := vt\<rparr>)"
    by (auto simp: store_products_def split: sum.splits)
  show "watermark_is_max ''products_last_sync'' items d d'"
    unfolding d' products_loop_max[OF l]
    using a by (intro watermark_from_fold) simp_all
next
  assume a: "store_customers items d = Inr (n, d') \<and> same_kind (stamps items)
        \<and> list_all api_stamped items"
  then obtain ct mx where l: "customers_loop items (customers d, None) = Inr (ct, mx)"
    and d': "d' = set_watermark ''customers_last_sync'' mx (d\<lparr>customers := ct\<rparr>)"
    by (auto simp: store_customers_def split: sum.splits)
  show "watermark_is_max ''customers_last_sync'' items d d'"
    unfolding d' customers_loop_max[OF l]
    using a by (intro watermark_from_fold) simp_all
next
  assume a: "store_orders items d = Inr (n, d') \<and> same_kind (stamps items)
        \<and> list_all api_stamped items"
  then obtain ot lt mx where l: "orders_loop items (orders d, line_items d, None) = Inr (ot, lt, mx)"
    and d': "d' = set_watermark ''orders_last_sync'' mx (d\<lparr>orders := ot, line_items := lt\<rparr>)"
    by (auto simp: store_orders_def split: sum.splits)
  show "watermark_is_max ''orders_last_sync'' items d d'"
    unfolding d' orders_loop_max[OF l]
    using a by (intro watermark_from_fold) simp_all
qed

theorem watermark_value_witness:
  "watermark_is_max ''products_last_sync'' sample_products empty_db
     (after_store store_products sample_products empty_db)
   \<and> metadata (after_store store_products sample_products empty_db) ''products_last_sync''
       = Some ''2024-05-02T09:30:00+02:00''
   \<and> watermark_is_max ''products_last_sync'' [] midnight_db (after_store store_products [] midnight_db)
   \<and> metadata (after_store store_products [] midnight_db) ''products_last_sync''
       = Some ''2024-06-01T00:00:00+00:00''"
proof -
  let ?d = "after_store store_products sample_products empty_db"
  let ?e = "after_store store_products [] midnight_db"
  have "succeeds (store_products sample_products empty_db)" by code_simp
  then have s: "store_products sample_products empty_db = Inr (length sample_products, ?d)"
    by (rule store_products_result)
  have k: "same_kind (stamps sample_products)" by code_simp
  have t: "list_all api_stamped sample_products" by code_simp
  have a: "watermark_is_max ''products_last_sync'' sample_products empty_db ?d"
    by (rule watermark_value[where items = sample_products and d = empty_db and d' = ?d
              and n = "length sample_products", THEN conjunct1, THEN mp,
              OF conjI[OF s conjI[OF k t]]])
  have b: "metadata ?d ''products_last_sync'' = Some ''2024-05-02T09:30:00+02:00''" by code_simp
  have "succeeds (store_products [] midnight_db)" by (simp add: store_products_def succeeds_def)
  then have s0: "store_products [] midnight_db = Inr (length ([] :: json list), ?e)"
    by (rule store_products_result)
  have k0: "same_kind (stamps [])" by (simp add: same_kind_def stamps_def map_filter_simps)
  have t0: "list_all api_stamped []" by simp
  have c: "watermark_is_max ''products_last_sync'' [] midnight_db ?e"
    by (rule watermark_value[where items = "[]" and d = midnight_db and d' = ?e
              and n = "length ([] :: json list)", THEN conjunct1, THEN mp,
              OF conjI[OF s0 conjI[OF k0 t0]]])
  have e: "metadata ?e ''products_last_sync'' = Some ''2024-06-01T00:00:00+00:00''"
    using c by (simp add: watermark_is_max_def stamps_def map_filter_simps midnight_db_def
                  db_set_metadata_def)
  show ?thesis using a b c e by (intro conjI)
qed

theorem watermark_value_counterexample:
  "db_get_metadata ''products_last_sync'' (db late_state) = Some ''2024-06-01T00:00:00+00:00''
   \<and> watermark_after ''products_last_sync'' (fetch_and_store_products True late_state)
       = Some ''2024-05-31T23:59:30+00:00''
   \<and> map_option utc_micros (fromisoformat ''2024-06-01T00:00:00+00:00'') = Some 63852796800000000
   \<and> map_option utc_micros (fromisoformat ''2024-05-31T23:59:30+00:00'') = Some 63852796770000000
   \<and> (63852796770000000 :: int) < 63852796800000000"
proof -
  let ?w = "world0 [page_of ''products'' late_product None]"
  let ?r = "\<lparr>status_code = 200, retry_after = None, link = None,
             body = Some (JObj [(''products'', JArr late_product)])\<rparr>"
  let ?ps = "[(''limit'', JInt 250), (''updated_at_min'', JStr ''2024-05-31T23:59:00Z'')]"
  let ?w1 = "?w\<lparr>pos := Suc (pos ?w),
                trace := trace ?w @ [Sent (BASE_URL (shopify_store ?w) @ ''products.json'')
                           (setdefault ?ps ''limit'' (JInt 250))]\<rparr>"
  let ?d1 = "after_store store_products late_product midnight_db"
  have old: "db_get_metadata ''products_last_sync'' (db late_state) = Some ''2024-06-01T00:00:00+00:00''"
    by (simp add: late_state_def midnight_db_def db_set_metadata_def db_get_metadata_def)
  have sp: "sync_params True (Some ''2024-06-01T00:00:00+00:00'') [(''limit'', JInt 250)] ?w = Inr ?ps"
    by code_simp
  have f: "fetch_all_rest ''products.json'' ?ps (Some ''products'') ?w = Some (Inr late_product, ?w1)"
    by (rule fetch_all_rest_single_page[where r = ?r])
       (simp_all add: world0_def script_def page_of_def accepted_def page_items_def dict_get_def
          py_iter_def)
  have "succeeds (store_products late_product midnight_db)" by code_simp
  then have s: "store_products late_product midnight_db = Inr (length late_product, ?d1)"
    by (rule store_products_result)
  have p: "fetch_and_store_products True late_state
             = Some (Inr (length late_product), \<lparr>db = ?d1, env = ?w1\<rparr>)"
    using old by (simp add: fetch_and_store_products_def sync_pass_def late_state_def sp f s)
  have m: "metadata ?d1 ''products_last_sync'' = Some ''2024-05-31T23:59:30+00:00''" by code_simp
  have new: "watermark_after ''products_last_sync'' (fetch_and_store_products True late_state)
       = Some ''2024-05-31T23:59:30+00:00''"
    by (simp add: p watermark_after_def m)
  have a: "map_option utc_micros (fromisoformat ''2024-06-01T00:00:00+00:00'') = Some 63852796800000000"
    by code_simp
  have b: "map_option utc_micros (fromisoformat ''2024-05-31T23:59:30+00:00'') = Some 63852796770000000"
    by code_simp
  show ?thesis using old new a b by simp
qed


end
